theory Spec2Isabelle
  imports Main "HOL-Library.Word" "HOL-Library.Sublist"
begin

section \<open>JavaScript strings\<close>

text \<open>
  A JavaScript string is a sequence of 16-bit code units, and \<open>.length\<close> counts code
  units.  String literals of the source are written \<open>js ''...''\<close>; a code unit
  outside printable ASCII is written as a number.
\<close>

type_synonym jsstring = "16 word list"

definition js :: "string \<Rightarrow> jsstring" where
  "js s = map of_char s"

text \<open>
  \<open>String.prototype.toUpperCase\<close>, restricted to the ASCII letters.  The source applies
  it to \<open>message.role\<close> only, whose type admits the two strings \<open>user\<close> and
  \<open>llm\<close>; on these the restriction is exact.
\<close>

definition toUpperCase :: "jsstring \<Rightarrow> jsstring" where
  "toUpperCase s = map (\<lambda>c. if 0x61 \<le> c \<and> c \<le> 0x7A then c - 0x20 else c) s"

text \<open>
  \<open>String.prototype.trim\<close> removes the code units of WhiteSpace and LineTerminator
  from both ends.
\<close>

definition isTrimSpace :: "16 word \<Rightarrow> bool" where
  "isTrimSpace c \<longleftrightarrow>
     c \<in> {0x09, 0x0A, 0x0B, 0x0C, 0x0D, 0x20, 0xA0, 0x1680, 0x2028, 0x2029,
          0x202F, 0x205F, 0x3000, 0xFEFF}
     \<or> (0x2000 \<le> c \<and> c \<le> 0x200A)"

definition trim :: "jsstring \<Rightarrow> jsstring" where
  "trim s = rev (dropWhile isTrimSpace (rev (dropWhile isTrimSpace s)))"


section \<open>validator.ts: cleanJSON\<close>

text \<open>
  \<^verbatim>\<open>raw.replace(/```(?:json)?/g, '')\<close>: a global replace scans from the left; where the
  pattern matches, the match (three backticks and, greedily, a following \<open>json\<close>) is
  dropped and the scan resumes behind it; elsewhere one code unit is copied.
\<close>

function replaceFenceLabel :: "jsstring \<Rightarrow> jsstring" where
  "replaceFenceLabel [] = []"
| "replaceFenceLabel (c # cs) =
     (if prefix (js ''```'') (c # cs) then
        (if prefix (js ''json'') (drop 2 cs) then replaceFenceLabel (drop 6 cs)
         else replaceFenceLabel (drop 2 cs))
      else c # replaceFenceLabel cs)"
  by pat_completeness auto
termination
  by (relation "measure length") auto

text \<open>\<^verbatim>\<open>.replace(/```/g, '')\<close>\<close>

function replaceFence :: "jsstring \<Rightarrow> jsstring" where
  "replaceFence [] = []"
| "replaceFence (c # cs) =
     (if prefix (js ''```'') (c # cs) then replaceFence (drop 2 cs)
      else c # replaceFence cs)"
  by pat_completeness auto
termination
  by (relation "measure length") auto

definition cleanJSON :: "jsstring \<Rightarrow> jsstring" where
  "cleanJSON raw = trim (replaceFence (replaceFenceLabel raw))"


section \<open>The platform's JSON.parse\<close>

text \<open>
  \<open>JSON.parse\<close> is a built-in of the JavaScript runtime.  It is modelled after the
  JSON grammar of ECMA-404 as ECMA-262 applies it: a lexer producing tokens, and a
  parser with an explicit stack of the containers still open.  A syntax error is
  \<open>None\<close>.  The members of an object are kept in source order, duplicates
  included; the property operations below read them as the resulting JavaScript
  object does (the last duplicate wins).  A number is kept as its lexeme: the
  source only ever asks for its \<open>typeof\<close>.
\<close>

datatype json =
    JNull
  | JBool bool
  | JNumber jsstring
  | JString jsstring
  | JArray "json list"
  | JObject "(jsstring \<times> json) list"

datatype token =
    TLBrace | TRBrace | TLBracket | TRBracket | TColon | TComma
  | TString jsstring | TNumber jsstring | TTrue | TFalse | TNull

definition isJsonWs :: "16 word \<Rightarrow> bool" where
  "isJsonWs c \<longleftrightarrow> c = 0x20 \<or> c = 0x09 \<or> c = 0x0A \<or> c = 0x0D"

definition isDigit :: "16 word \<Rightarrow> bool" where
  "isDigit c \<longleftrightarrow> 0x30 \<le> c \<and> c \<le> 0x39"

definition hexDigit :: "16 word \<Rightarrow> 16 word option" where
  "hexDigit c =
     (if 0x30 \<le> c \<and> c \<le> 0x39 then Some (c - 0x30)
      else if 0x41 \<le> c \<and> c \<le> 0x46 then Some (c - 0x37)
      else if 0x61 \<le> c \<and> c \<le> 0x66 then Some (c - 0x57)
      else None)"

definition hex4 :: "16 word \<Rightarrow> 16 word \<Rightarrow> 16 word \<Rightarrow> 16 word \<Rightarrow> 16 word option" where
  "hex4 a b c d =
     (case (hexDigit a, hexDigit b, hexDigit c, hexDigit d) of
        (Some x, Some y, Some z, Some w) \<Rightarrow> Some (x * 0x1000 + y * 0x100 + z * 0x10 + w)
      | _ \<Rightarrow> None)"

text \<open>The two-character escapes: quote, backslash, slash, b, f, n, r, t.\<close>

definition simpleEscape :: "16 word \<Rightarrow> 16 word option" where
  "simpleEscape e =
     (if e = 0x22 then Some 0x22
      else if e = 0x5C then Some 0x5C
      else if e = 0x2F then Some 0x2F
      else if e = 0x62 then Some 0x08
      else if e = 0x66 then Some 0x0C
      else if e = 0x6E then Some 0x0A
      else if e = 0x72 then Some 0x0D
      else if e = 0x74 then Some 0x09
      else None)"

text \<open>
  \<open>scanString acc n s\<close> reads a string body behind its opening quote: \<open>acc\<close> is
  the text decoded so far and \<open>n\<close> the number of code units consumed so far.  It
  returns the decoded text and the number of code units up to and including the
  closing quote.  A raw control character, an unknown escape and a missing closing
  quote are errors.
\<close>

fun scanString :: "jsstring \<Rightarrow> nat \<Rightarrow> jsstring \<Rightarrow> (jsstring \<times> nat) option" where
  "scanString acc n [] = None"
| "scanString acc n [c] = (if c = 0x22 then Some (acc, Suc n) else None)"
| "scanString acc n (c # e # cs) =
     (if c = 0x22 then Some (acc, Suc n)
      else if c = 0x5C then
        (if e = 0x75 then
           (case cs of
              h1 # h2 # h3 # h4 # rest \<Rightarrow>
                (case hex4 h1 h2 h3 h4 of
                   Some u \<Rightarrow> scanString (acc @ [u]) (n + 6) rest
                 | None \<Rightarrow> None)
            | _ \<Rightarrow> None)
         else
           (case simpleEscape e of
              Some u \<Rightarrow> scanString (acc @ [u]) (n + 2) cs
            | None \<Rightarrow> None))
      else if c < 0x20 then None
      else scanString (acc @ [c]) (Suc n) (e # cs))"

text \<open>
  A number is \<open>-? (0 | [1-9][0-9]*) (. [0-9]+)? ([eE] [+-]? [0-9]+)?\<close>.  Each scanner
  returns the part of the lexeme it read at the front of its input.
\<close>

definition scanMinus :: "jsstring \<Rightarrow> jsstring" where
  "scanMinus s = (case s of [] \<Rightarrow> [] | c # r \<Rightarrow> if c = 0x2D then [c] else [])"

definition scanInt :: "jsstring \<Rightarrow> jsstring option" where
  "scanInt s =
     (case s of
        [] \<Rightarrow> None
      | d # r \<Rightarrow>
          if d = 0x30 then Some [d]
          else if isDigit d then Some (d # takeWhile isDigit r)
          else None)"

definition scanFrac :: "jsstring \<Rightarrow> jsstring option" where
  "scanFrac s =
     (case s of
        [] \<Rightarrow> Some []
      | c # r \<Rightarrow>
          if c = 0x2E then
            (if takeWhile isDigit r = [] then None else Some (c # takeWhile isDigit r))
          else Some [])"

definition scanSign :: "jsstring \<Rightarrow> jsstring" where
  "scanSign s = (case s of [] \<Rightarrow> [] | c # r \<Rightarrow> if c = 0x2B \<or> c = 0x2D then [c] else [])"

definition scanExp :: "jsstring \<Rightarrow> jsstring option" where
  "scanExp s =
     (case s of
        [] \<Rightarrow> Some []
      | c # r \<Rightarrow>
          if c = 0x65 \<or> c = 0x45 then
            (let sg = scanSign r; ds = takeWhile isDigit (drop (length sg) r)
             in if ds = [] then None else Some (c # sg @ ds))
          else Some [])"

definition scanNumber :: "jsstring \<Rightarrow> jsstring option" where
  "scanNumber s =
     (let sg = scanMinus s in
      case scanInt (drop (length sg) s) of
        None \<Rightarrow> None
      | Some ip \<Rightarrow>
          (case scanFrac (drop (length (sg @ ip)) s) of
             None \<Rightarrow> None
           | Some fp \<Rightarrow>
               (case scanExp (drop (length (sg @ ip @ fp)) s) of
                  None \<Rightarrow> None
                | Some ep \<Rightarrow> Some (sg @ ip @ fp @ ep))))"

definition consTok :: "token \<Rightarrow> token list option \<Rightarrow> token list option" where
  "consTok t r = map_option (Cons t) r"

function lex :: "jsstring \<Rightarrow> token list option" where
  "lex [] = Some []"
| "lex (c # cs) =
     (if isJsonWs c then lex cs
      else if c = 0x7B then consTok TLBrace (lex cs)
      else if c = 0x7D then consTok TRBrace (lex cs)
      else if c = 0x5B then consTok TLBracket (lex cs)
      else if c = 0x5D then consTok TRBracket (lex cs)
      else if c = 0x3A then consTok TColon (lex cs)
      else if c = 0x2C then consTok TComma (lex cs)
      else if c = 0x22 then
        (case scanString [] 0 cs of
           None \<Rightarrow> None
         | Some (s, n) \<Rightarrow> consTok (TString s) (lex (drop n cs)))
      else if c = 0x2D \<or> isDigit c then
        (case scanNumber (c # cs) of
           None \<Rightarrow> None
         | Some num \<Rightarrow> consTok (TNumber num) (lex (drop (length num - 1) cs)))
      else if prefix (js ''true'') (c # cs) then consTok TTrue (lex (drop 3 cs))
      else if prefix (js ''false'') (c # cs) then consTok TFalse (lex (drop 4 cs))
      else if prefix (js ''null'') (c # cs) then consTok TNull (lex (drop 3 cs))
      else None)"
  by pat_completeness auto
termination
  by (relation "measure length") auto

text \<open>
  The parser keeps the containers still open on a stack: an array with the elements
  read so far, or an object with the members read so far and the key that still
  waits for its value.
\<close>

datatype frame =
    FArray "json list"
  | FObject "(jsstring \<times> json) list" "jsstring option"

datatype expect = EValue | EValueOrClose | EKeyOrClose | EKey | EColon | ECommaOrClose

datatype pstate = Parsing "frame list" expect | Finished json

fun deliver :: "json \<Rightarrow> frame list \<Rightarrow> pstate option" where
  "deliver v [] = Some (Finished v)"
| "deliver v (FArray xs # st) = Some (Parsing (FArray (xs @ [v]) # st) ECommaOrClose)"
| "deliver v (FObject ms (Some k) # st) =
     Some (Parsing (FObject (ms @ [(k, v)]) None # st) ECommaOrClose)"
| "deliver v (FObject ms None # st) = None"

fun scalar :: "token \<Rightarrow> json option" where
  "scalar (TString s) = Some (JString s)"
| "scalar (TNumber n) = Some (JNumber n)"
| "scalar TTrue = Some (JBool True)"
| "scalar TFalse = Some (JBool False)"
| "scalar TNull = Some JNull"
| "scalar _ = None"

fun startValue :: "frame list \<Rightarrow> token \<Rightarrow> pstate option" where
  "startValue st TLBracket = Some (Parsing (FArray [] # st) EValueOrClose)"
| "startValue st TLBrace = Some (Parsing (FObject [] None # st) EKeyOrClose)"
| "startValue st t = (case scalar t of Some v \<Rightarrow> deliver v st | None \<Rightarrow> None)"

fun closeFrame :: "frame list \<Rightarrow> token \<Rightarrow> pstate option" where
  "closeFrame (FArray xs # st) TRBracket = deliver (JArray xs) st"
| "closeFrame (FObject ms None # st) TRBrace = deliver (JObject ms) st"
| "closeFrame _ _ = None"

fun takeKey :: "frame list \<Rightarrow> token \<Rightarrow> pstate option" where
  "takeKey (FObject ms None # st) (TString k) =
     Some (Parsing (FObject ms (Some k) # st) EColon)"
| "takeKey _ _ = None"

fun afterComma :: "frame list \<Rightarrow> pstate option" where
  "afterComma (FArray xs # st) = Some (Parsing (FArray xs # st) EValue)"
| "afterComma (FObject ms None # st) = Some (Parsing (FObject ms None # st) EKey)"
| "afterComma _ = None"

fun parseStep :: "pstate \<Rightarrow> token \<Rightarrow> pstate option" where
  "parseStep (Finished v) t = None"
| "parseStep (Parsing st EValue) t = startValue st t"
| "parseStep (Parsing st EValueOrClose) t =
     (if t = TRBracket then closeFrame st t else startValue st t)"
| "parseStep (Parsing st EKeyOrClose) t =
     (if t = TRBrace then closeFrame st t else takeKey st t)"
| "parseStep (Parsing st EKey) t = takeKey st t"
| "parseStep (Parsing st EColon) t =
     (if t = TColon then Some (Parsing st EValue) else None)"
| "parseStep (Parsing st ECommaOrClose) t =
     (if t = TComma then afterComma st else closeFrame st t)"

fun parseTokens :: "pstate \<Rightarrow> token list \<Rightarrow> json option" where
  "parseTokens (Finished v) [] = Some v"
| "parseTokens (Parsing st e) [] = None"
| "parseTokens s (t # ts) =
     (case parseStep s t of None \<Rightarrow> None | Some s' \<Rightarrow> parseTokens s' ts)"

definition JSON_parse :: "jsstring \<Rightarrow> json option" where
  "JSON_parse text =
     (case lex text of
        None \<Rightarrow> None
      | Some ts \<Rightarrow> parseTokens (Parsing [] EValue) ts)"

text \<open>
  What the source asks of the parsed value.  \<open>typeof\<close> is \<open>object\<close> for
  \<open>null\<close>, for arrays and for objects.  \<open>"reply" in parsed\<close> holds for an object
  with a member of that key; neither \<open>Object.prototype\<close> nor an array has a
  property of this name.  \<open>parsed.reply\<close> is the value of the last such member.
  \<open>Object.keys(parsed).length\<close> counts the distinct keys of an object and the
  elements of an array.
\<close>

datatype jstype = TyObject | TyBoolean | TyNumber | TyString

fun typeof :: "json \<Rightarrow> jstype" where
  "typeof JNull = TyObject"
| "typeof (JBool b) = TyBoolean"
| "typeof (JNumber n) = TyNumber"
| "typeof (JString s) = TyString"
| "typeof (JArray xs) = TyObject"
| "typeof (JObject ms) = TyObject"

fun reply_in :: "json \<Rightarrow> bool" where
  "reply_in (JObject ms) = (js ''reply'' \<in> set (map fst ms))"
| "reply_in _ = False"

fun get_reply :: "json \<Rightarrow> json option" where
  "get_reply (JObject ms) = map_of (rev ms) (js ''reply'')"
| "get_reply _ = None"

fun Object_keys_length :: "json \<Rightarrow> nat" where
  "Object_keys_length (JObject ms) = length (remdups (map fst ms))"
| "Object_keys_length (JArray xs) = length xs"
| "Object_keys_length _ = 0"


section \<open>Errors\<close>

text \<open>
  A promise can be rejected with any JavaScript value.  The source does one thing
  with such a value besides passing it on: the warning of the \<open>catch\<close> block
  reads its property \<open>message\<close> and prints it.  On \<open>undefined\<close> and on
  \<open>null\<close> this read throws a \<open>TypeError\<close>.  On an \<open>Error\<close> object, and on
  any other value with an ordinary \<open>message\<close> property or with none, it
  succeeds: these are the values \<open>Plain\<close>, told apart by a number.  On an object
  whose \<open>message\<close> is an accessor that throws, or whose message does not
  convert to a string, the read or the printing throws a value of its own:
  \<open>Throwing\<close> names that value.
\<close>

datatype thrown =
    Undefined
  | Null
  | Plain nat
  | Throwing nat thrown

text \<open>
  What propagates as an exception.  Every \<open>throw\<close> statement of the source is a
  constructor; the message text of its \<open>Error\<close> object is not modelled, only
  which statement raised it.  \<open>BackendError v\<close> is the thrown value \<open>v\<close>
  itself, propagating; \<open>CannotReadMessage\<close> is the \<open>TypeError\<close> of the runtime
  for a property read on \<open>undefined\<close> or \<open>null\<close>.
\<close>

datatype error =
    NotValidJSON
  | NotAJSONObject
  | MissingReply
  | ReplyNotAString
  | UnexpectedFields
  | SummaryTooLong nat nat
  | EmptyChat
  | TimedOut
  | BackendError thrown
  | CannotReadMessage
  | UnexpectedFailure nat

text \<open>
  \<^verbatim>\<open>(error as Error).message\<close> inside the template literal of the warning: it
  either yields the text to print, which is not modelled, or throws.  The cast is
  erased at run time.
\<close>

fun errorMessage :: "error \<Rightarrow> error + unit" where
  "errorMessage (BackendError Undefined) = Inl CannotReadMessage"
| "errorMessage (BackendError Null) = Inl CannotReadMessage"
| "errorMessage (BackendError (Throwing n v)) = Inl (BackendError v)"
| "errorMessage e = Inr ()"


section \<open>validator.ts: validateLLMResponse\<close>

record LLMReply =
  reply :: jsstring

definition validateLLMResponse :: "jsstring \<Rightarrow> error + LLMReply" where
  "validateLLMResponse raw =
     (case JSON_parse (cleanJSON raw) of
        None \<Rightarrow> Inl NotValidJSON
      | Some parsed \<Rightarrow>
          if typeof parsed \<noteq> TyObject \<or> parsed = JNull then Inl NotAJSONObject
          else if \<not> reply_in parsed then Inl MissingReply
          else
            (case get_reply parsed of
               Some (JString r) \<Rightarrow>
                 if 1 < Object_keys_length parsed then Inl UnexpectedFields
                 else Inr \<lparr>reply = r\<rparr>
             | _ \<Rightarrow> Inl ReplyNotAString))"


section \<open>llmchat.ts: the data model on a heap\<close>

text \<open>
  A \<open>Chat\<close> is a JavaScript object handled by reference; its \<open>messages\<close> field
  refers to an array object, whose elements refer to \<open>Message\<close> objects.  The three
  kinds of object live in three typed heaps, each with its own allocation counter:
  a reference below the counter is an object that exists.  The \<open>world\<close> further
  holds the field \<open>chats\<close> of the one \<open>LLMChat\<close> instance, the trace of the
  effects in the order in which they happened, and the readings of the clock.
  An effect is a call of the backend, recorded with its prompt and with what
  came of it, a warning printed, or a delay waited for.  What comes of a call:
  it resolves with a text or rejects with a value after so many milliseconds, or
  never settles.
\<close>

type_synonym ref = nat

datatype outcome = Resolves nat jsstring | Rejects nat thrown | Hangs

datatype event = Call jsstring outcome | Warn nat error | Sleep nat

datatype role = User | Llm

fun roleString :: "role \<Rightarrow> jsstring" where
  "roleString User = js ''user''"
| "roleString Llm = js ''llm''"

record Message =
  role :: role
  content :: jsstring
  timestamp :: nat

record Chat =
  name :: jsstring
  messages :: ref
  summary :: jsstring
  historyString :: jsstring

record world =
  chatObjs :: "ref \<Rightarrow> Chat"
  nextChat :: ref
  arrays :: "ref \<Rightarrow> ref list"
  nextArr :: ref
  msgObjs :: "ref \<Rightarrow> Message"
  nextMsg :: ref
  chats :: "ref list"
  trace :: "event list"
  dateNow :: "nat \<Rightarrow> nat"
  ticks :: nat

text \<open>\<open>new LLMChat()\<close> in a heap without objects; \<open>clock\<close> is what \<open>Date.now()\<close> will return, reading by reading.\<close>

definition newLLMChat :: "(nat \<Rightarrow> nat) \<Rightarrow> world" where
  "newLLMChat clock =
     \<lparr>chatObjs = (\<lambda>_. \<lparr>name = [], messages = 0, summary = [], historyString = []\<rparr>),
      nextChat = 0,
      arrays = (\<lambda>_. []),
      nextArr = 0,
      msgObjs = (\<lambda>_. \<lparr>role = User, content = [], timestamp = 0\<rparr>),
      nextMsg = 0,
      chats = [],
      trace = [],
      dateNow = clock,
      ticks = 0\<rparr>"

definition Date_now :: "world \<Rightarrow> nat \<times> world" where
  "Date_now w = (dateNow w (ticks w), w\<lparr>ticks := Suc (ticks w)\<rparr>)"

definition allocMessage :: "Message \<Rightarrow> world \<Rightarrow> ref \<times> world" where
  "allocMessage msg w =
     (nextMsg w, w\<lparr>msgObjs := (msgObjs w)(nextMsg w := msg), nextMsg := Suc (nextMsg w)\<rparr>)"

definition allocArray :: "ref list \<Rightarrow> world \<Rightarrow> ref \<times> world" where
  "allocArray xs w =
     (nextArr w, w\<lparr>arrays := (arrays w)(nextArr w := xs), nextArr := Suc (nextArr w)\<rparr>)"

definition allocChat :: "Chat \<Rightarrow> world \<Rightarrow> ref \<times> world" where
  "allocChat ch w =
     (nextChat w, w\<lparr>chatObjs := (chatObjs w)(nextChat w := ch), nextChat := Suc (nextChat w)\<rparr>)"

text \<open>\<open>chat.messages.push(m)\<close>\<close>

definition pushMessage :: "ref \<Rightarrow> ref \<Rightarrow> world \<Rightarrow> world" where
  "pushMessage chat m w =
     w\<lparr>arrays := (arrays w)(messages (chatObjs w chat) :=
          arrays w (messages (chatObjs w chat)) @ [m])\<rparr>"

text \<open>The messages of a chat, read through the heap.\<close>

definition messagesOf :: "world \<Rightarrow> ref \<Rightarrow> Message list" where
  "messagesOf w chat = map (msgObjs w) (arrays w (messages (chatObjs w chat)))"


section \<open>llmchat.ts: the store\<close>

definition makeChat :: "jsstring \<Rightarrow> world \<Rightarrow> ref \<times> world" where
  "makeChat nm w =
     (let (a, w1) = allocArray [] w;
          (newChat, w2) =
             allocChat \<lparr>name = nm, messages = a, summary = [], historyString = []\<rparr> w1
      in (newChat, w2\<lparr>chats := chats w2 @ [newChat]\<rparr>))"

definition deleteChat :: "ref \<Rightarrow> world \<Rightarrow> world" where
  "deleteChat chat w = w\<lparr>chats := filter (\<lambda>c. c \<noteq> chat) (chats w)\<rparr>"

definition renameChat :: "ref \<Rightarrow> jsstring \<Rightarrow> world \<Rightarrow> world" where
  "renameChat chat newName w =
     w\<lparr>chatObjs := (chatObjs w)(chat := (chatObjs w chat)\<lparr>name := newName\<rparr>)\<rparr>"

text \<open>
  \<open>getChats\<close>: \<open>chat.messages.map(msg => ({ ...msg }))\<close> allocates one new message
  object per element and a new array; the object literal around it is a new chat
  object.
\<close>

fun copyMessages :: "ref list \<Rightarrow> world \<Rightarrow> ref list \<times> world" where
  "copyMessages [] w = ([], w)"
| "copyMessages (m # ms) w =
     (let (m', w1) = allocMessage (msgObjs w m) w;
          (ms', w2) = copyMessages ms w1
      in (m' # ms', w2))"

definition copyChat :: "ref \<Rightarrow> world \<Rightarrow> ref \<times> world" where
  "copyChat chat w =
     (let (ms', w1) = copyMessages (arrays w (messages (chatObjs w chat))) w;
          (a, w2) = allocArray ms' w1
      in allocChat \<lparr>name = name (chatObjs w chat),
                     messages = a,
                     summary = summary (chatObjs w chat),
                     historyString = historyString (chatObjs w chat)\<rparr> w2)"

fun copyChats :: "ref list \<Rightarrow> world \<Rightarrow> ref list \<times> world" where
  "copyChats [] w = ([], w)"
| "copyChats (c # cs) w =
     (let (c', w1) = copyChat c w;
          (cs', w2) = copyChats cs w1
      in (c' # cs', w2))"

definition getChats :: "world \<Rightarrow> ref list \<times> world" where
  "getChats w = copyChats (chats w) w"


section \<open>llmchat.ts: history and prompts\<close>

definition appendToHistory :: "ref \<Rightarrow> ref \<Rightarrow> world \<Rightarrow> world" where
  "appendToHistory chat message w =
     w\<lparr>chatObjs := (chatObjs w)(chat := (chatObjs w chat)
          \<lparr>historyString := historyString (chatObjs w chat) @
             js ''['' @ toUpperCase (roleString (role (msgObjs w message))) @ js ''] '' @
             content (msgObjs w message) @ js ''\<newline>''\<rparr>)\<rparr>"

definition createSummaryPrompt :: "jsstring \<Rightarrow> jsstring" where
  \<open>createSummaryPrompt chatHistory =
      js ''\<newline>'' @
      js ''        SYSTEM INSTRUCTIONS\<newline>'' @
      js ''        You are summarizing a conversation between a user and an assistant.  \<newline>'' @
      js ''        \<newline>'' @
      js ''        CRITICAL REQUIREMENTS:  \<newline>'' @
      js ''        - Be shorter than the original text.  \<newline>'' @
      js ''        - Capture only the key points needed for context.  \<newline>'' @
      js ''        - Not include details about future messages that have not yet occurred.  \<newline>'' @
      js ''        - Avoid hallucinating or inventing content.  \<newline>'' @
      js ''        - Avoid copying entire messages verbatim.  \<newline>'' @
      js ''\<newline>'' @
      js ''        CONVERSATION SO FAR:  \<newline>'' @
      js ''        '' @
      chatHistory @
      js ''\<newline>'' @
      js ''\<newline>'' @
      js ''        TASK:  \<newline>'' @
      js ''        Summarize the above conversation in 3'' @
      [0x201A, 0x00C4, 0x00EC] @
      js ''6 sentences, focusing only on the essential topics, decisions, or user requests that may be relevant later.\<newline>'' @
      js ''        Return your next response in strict JSON format:  \<newline>'' @
      js ''        {\<newline>'' @
      js ''        "reply": "..."\<newline>'' @
      js ''        }\<newline>'' @
      js ''        ''\<close>

definition createConversationPrompt :: "jsstring \<Rightarrow> jsstring \<Rightarrow> jsstring" where
  \<open>createConversationPrompt chatHistory lastMessage =
      js ''\<newline>'' @
      js ''        SYSTEM INSTRUCTIONS:\<newline>'' @
      js ''        You are an AI assistant continuing a chat conversation.  \<newline>'' @
      js ''        - Respond naturally in the style of a helpful assistant.  \<newline>'' @
      js ''        - Use only the information from the conversation so far and your general knowledge.  \<newline>'' @
      js ''        - Do not repeat the entire history in your response.  \<newline>'' @
      js ''        - Do not reference this prompt or the system instructions.  \<newline>'' @
      js ''        - Keep the response concise and directly relevant to the user'' @
      [0x201A, 0x00C4, 0x00F4] @
      js ''s last message.  \<newline>'' @
      js ''\<newline>'' @
      js ''        CONVERSATION SO FAR:\<newline>'' @
      js ''        '' @
      chatHistory @
      js ''\<newline>'' @
      js ''\<newline>'' @
      js ''        USER'S LAST MESSAGE:\<newline>'' @
      js ''        '' @
      lastMessage @
      js ''\<newline>'' @
      js ''\<newline>'' @
      js ''        TASK:  \<newline>'' @
      js ''        Write the assistant'' @
      [0x201A, 0x00C4, 0x00F4] @
      js ''s next reply.\<newline>'' @
      js ''        Return your next response in strict JSON format:  \<newline>'' @
      js ''        {\<newline>'' @
      js ''        "reply": "..."\<newline>'' @
      js ''        }\<newline>'' @
      js ''        ''\<close>


section \<open>validator.ts: validateSummaryLength\<close>

definition validateSummaryLength :: "jsstring \<Rightarrow> ref \<Rightarrow> world \<Rightarrow> error + unit" where
  "validateSummaryLength summ chat w =
     (let totalLength =
            foldl (\<lambda>sum m. sum + length (content (msgObjs w m))) 0
              (arrays w (messages (chatObjs w chat)));
          maxLength = max totalLength 1 * 2
      in if length summ > maxLength then Inl (SummaryTooLong (length summ) totalLength)
         else Inr ())"


section \<open>The backend\<close>

text \<open>
  Modelled from the spec: \<open>gemini-llm.ts\<close>, the class \<open>GeminiLLM\<close> with its method
  \<open>executeLLM\<close>.  The spec gives its contract: a single operation from a prompt
  text to a text, asynchronous, which may fail with any error, with unconstrained
  latency.  An implementation is code of the caller's: it may keep state from
  call to call, and it may read whatever it can reach at the moment it is called,
  the chat objects included.  So a backend is a function from the prompt and the
  world in which it is called to the outcome of that call.  It does not write to
  the heap.
\<close>

type_synonym GeminiLLM = "jsstring \<Rightarrow> world \<Rightarrow> outcome"

text \<open>
  \<open>executeWithTimeout\<close> races the call against a timer of \<open>timeoutMs\<close>: the call
  wins when it settles before the timer fires.
\<close>

fun settle :: "nat \<Rightarrow> outcome \<Rightarrow> error + jsstring" where
  "settle timeoutMs (Resolves t result) = (if t < timeoutMs then Inr result else Inl TimedOut)"
| "settle timeoutMs (Rejects t err) = (if t < timeoutMs then Inl (BackendError err) else Inl TimedOut)"
| "settle timeoutMs Hangs = Inl TimedOut"

definition executeWithTimeout ::
    "GeminiLLM \<Rightarrow> jsstring \<Rightarrow> nat \<Rightarrow> world \<Rightarrow> (error + jsstring) \<times> world" where
  "executeWithTimeout llm prompt timeoutMs w =
     (settle timeoutMs (llm prompt w), w\<lparr>trace := trace w @ [Call prompt (llm prompt w)]\<rparr>)"


section \<open>llmchat.ts: the attempt cycle\<close>

type_synonym validator = "jsstring \<Rightarrow> ref \<Rightarrow> world \<Rightarrow> error + unit"

text \<open>\<open>validators.forEach(v => v(response.reply, chat))\<close> stops at the first one that throws.\<close>

fun applyValidators :: "validator list \<Rightarrow> jsstring \<Rightarrow> ref \<Rightarrow> world \<Rightarrow> error + unit" where
  "applyValidators [] s chat w = Inr ()"
| "applyValidators (v # vs) s chat w =
     (case v s chat w of
        Inl e \<Rightarrow> Inl e
      | Inr _ \<Rightarrow> applyValidators vs s chat w)"

text \<open>The body of the \<open>try\<close> block.\<close>

definition tryAttempt ::
    "GeminiLLM \<Rightarrow> jsstring \<Rightarrow> validator list \<Rightarrow> ref \<Rightarrow> nat \<Rightarrow> world
      \<Rightarrow> (error + LLMReply) \<times> world" where
  "tryAttempt llm prompt validators chat timeoutMs w =
     (case executeWithTimeout llm prompt timeoutMs w of
        (Inl e, w1) \<Rightarrow> (Inl e, w1)
      | (Inr raw, w1) \<Rightarrow>
          (case validateLLMResponse raw of
             Inl e \<Rightarrow> (Inl e, w1)
           | Inr response \<Rightarrow>
               (case applyValidators validators (reply response) chat w1 of
                  Inl e \<Rightarrow> (Inl e, w1)
                | Inr _ \<Rightarrow> (Inr response, w1))))"

definition console_warn :: "nat \<Rightarrow> error \<Rightarrow> world \<Rightarrow> world" where
  "console_warn attempt e w = w\<lparr>trace := trace w @ [Warn attempt e]\<rparr>"

text \<open>\<open>await new Promise(res => setTimeout(res, ms))\<close>\<close>

definition sleep :: "nat \<Rightarrow> world \<Rightarrow> world" where
  "sleep ms w = w\<lparr>trace := trace w @ [Sleep ms]\<rparr>"

text \<open>
  The \<open>for\<close> loop of \<open>callLLMWithValidation\<close>, from \<open>attempt\<close> on.  In the
  \<open>catch\<close> block the argument of \<open>console.warn\<close> is evaluated first: when the
  read of the message throws, that exception leaves the block, and the function,
  before anything is printed.
\<close>

function attemptLoop ::
    "GeminiLLM \<Rightarrow> jsstring \<Rightarrow> validator list \<Rightarrow> ref \<Rightarrow> nat \<Rightarrow> nat \<Rightarrow> nat \<Rightarrow> world
      \<Rightarrow> (error + LLMReply) \<times> world" where
  "attemptLoop llm prompt validators chat maxRetries timeoutMs attempt w =
     (if attempt \<le> maxRetries then
        (case tryAttempt llm prompt validators chat timeoutMs w of
           (Inr response, w1) \<Rightarrow> (Inr response, w1)
         | (Inl e, w1) \<Rightarrow>
             (case errorMessage e of
                Inl e' \<Rightarrow> (Inl e', w1)
              | Inr _ \<Rightarrow>
                  (if attempt = maxRetries then (Inl e, console_warn attempt e w1)
                   else attemptLoop llm prompt validators chat maxRetries timeoutMs (Suc attempt)
                          (sleep (500 * attempt) (console_warn attempt e w1)))))
      else (Inl (UnexpectedFailure maxRetries), w))"
  by pat_completeness auto
termination
  by (relation "measure (\<lambda>(llm, prompt, validators, chat, maxRetries, timeoutMs, attempt, w).
                   Suc maxRetries - attempt)") auto

definition callLLMWithValidation ::
    "GeminiLLM \<Rightarrow> jsstring \<Rightarrow> validator list \<Rightarrow> ref \<Rightarrow> nat \<Rightarrow> nat \<Rightarrow> world
      \<Rightarrow> (error + LLMReply) \<times> world" where
  "callLLMWithValidation llm prompt validators chat maxRetries timeoutMs w =
     attemptLoop llm prompt validators chat maxRetries timeoutMs 1 w"


section \<open>llmchat.ts: sendMessage and updateSummary\<close>

text \<open>Both call \<open>callLLMWithValidation\<close> with its defaults \<open>maxRetries = 3\<close> and \<open>timeoutMs = 10000\<close>.\<close>

definition sendMessage ::
    "ref \<Rightarrow> jsstring \<Rightarrow> GeminiLLM \<Rightarrow> world \<Rightarrow> (error + LLMReply) \<times> world" where
  "sendMessage chat cont llm w =
     (let (t, w1) = Date_now w;
          (userMsg, w2) = allocMessage \<lparr>role = User, content = cont, timestamp = t\<rparr> w1;
          w3 = pushMessage chat userMsg w2;
          w4 = appendToHistory chat userMsg w3;
          prompt = createConversationPrompt (historyString (chatObjs w4 chat)) cont
      in case callLLMWithValidation llm prompt [] chat 3 10000 w4 of
           (Inl e, w5) \<Rightarrow> (Inl e, w5)
         | (Inr response, w5) \<Rightarrow>
             (let (t', w6) = Date_now w5;
                  (llmMsg, w7) =
                     allocMessage \<lparr>role = Llm, content = reply response, timestamp = t'\<rparr> w6;
                  w8 = pushMessage chat llmMsg w7;
                  w9 = appendToHistory chat llmMsg w8
              in (Inr response, w9)))"

definition updateSummary :: "ref \<Rightarrow> GeminiLLM \<Rightarrow> world \<Rightarrow> (error + LLMReply) \<times> world" where
  "updateSummary chat llm w =
     (if length (arrays w (messages (chatObjs w chat))) = 0 then (Inl EmptyChat, w)
      else
        (let prompt = createSummaryPrompt (historyString (chatObjs w chat))
         in case callLLMWithValidation llm prompt [validateSummaryLength] chat 3 10000 w of
              (Inl e, w1) \<Rightarrow> (Inl e, w1)
            | (Inr response, w1) \<Rightarrow>
                (Inr response,
                 w1\<lparr>chatObjs := (chatObjs w1)(chat := (chatObjs w1 chat)
                      \<lparr>summary := reply response\<rparr>)\<rparr>)))"


section \<open>Notions used in the statements\<close>

text \<open>A message rendered as \<open>[ROLE] content\<close> and a line feed.\<close>

definition render :: "Message \<Rightarrow> jsstring" where
  "render m = js ''['' @ toUpperCase (roleString (role m)) @ js ''] '' @ content m @ js ''\<newline>''"

text \<open>
  The heap is well formed: an existing chat refers to an existing array, an
  existing array to existing messages, two existing chats never share their array,
  and the store registers existing chats only.  References cannot be forged in the
  source language, so every heap a program can build is of this kind.
\<close>

definition heap_ok :: "world \<Rightarrow> bool" where
  "heap_ok w \<longleftrightarrow>
     (\<forall>c \<in> {..<nextChat w}. messages (chatObjs w c) < nextArr w) \<and>
     (\<forall>a \<in> {..<nextArr w}. \<forall>m \<in> set (arrays w a). m < nextMsg w) \<and>
     (\<forall>c \<in> {..<nextChat w}. \<forall>c' \<in> {..<nextChat w}.
         messages (chatObjs w c) = messages (chatObjs w c') \<longrightarrow> c = c') \<and>
     (\<forall>c \<in> set (chats w). c < nextChat w)"

text \<open>
  Two worlds with the same heap and store: they differ in the trace of effects and
  in the clock at most.
\<close>

definition same_heap :: "world \<Rightarrow> world \<Rightarrow> bool" where
  "same_heap w w' \<longleftrightarrow>
     chatObjs w' = chatObjs w \<and> nextChat w' = nextChat w \<and>
     arrays w' = arrays w \<and> nextArr w' = nextArr w \<and>
     msgObjs w' = msgObjs w \<and> nextMsg w' = nextMsg w \<and>
     chats w' = chats w"

text \<open>What a chat object holds, its messages read through the heap.\<close>

definition chatValue :: "world \<Rightarrow> ref \<Rightarrow> jsstring \<times> Message list \<times> jsstring \<times> jsstring" where
  "chatValue w c =
     (name (chatObjs w c), messagesOf w c, summary (chatObjs w c), historyString (chatObjs w c))"

text \<open>The world after further events.\<close>

definition after :: "world \<Rightarrow> event list \<Rightarrow> world" where
  "after w evs = w\<lparr>trace := trace w @ evs\<rparr>"

text \<open>The prompts handed to the backend, in order.\<close>

fun calls :: "event list \<Rightarrow> jsstring list" where
  "calls [] = []"
| "calls (Call p out # evs) = p # calls evs"
| "calls (Warn k e # evs) = calls evs"
| "calls (Sleep ms # evs) = calls evs"

text \<open>
  The outline of a trace: the calls, as their prompts, and the delays, in the
  order in which they happened.
\<close>

fun outline :: "event list \<Rightarrow> (jsstring + nat) list" where
  "outline [] = []"
| "outline (Call p out # evs) = Inl p # outline evs"
| "outline (Warn k e # evs) = outline evs"
| "outline (Sleep ms # evs) = Inr ms # outline evs"

text \<open>
  What an attempt made in the world \<open>v\<close> comes to when there are no extra
  validators: the settled call, then the structural validation.
\<close>

definition attemptResult :: "GeminiLLM \<Rightarrow> jsstring \<Rightarrow> nat \<Rightarrow> world \<Rightarrow> error + LLMReply" where
  "attemptResult llm prompt timeoutMs v =
     (case settle timeoutMs (llm prompt v) of
        Inl e \<Rightarrow> Inl e
      | Inr raw \<Rightarrow> validateLLMResponse raw)"

text \<open>
  A backend for tests: the call it receives after \<open>k\<close> earlier calls has the
  outcome of the script at index \<open>k\<close>.
\<close>

definition scripted :: "outcome list \<Rightarrow> GeminiLLM" where
  "scripted outs prompt w =
     (let k = length (calls (trace w)) in if k < length outs then outs ! k else Hangs)"

text \<open>
  Sequences of calls on the public surface.  A call can only name a chat object
  that exists.
\<close>

datatype op =
    MakeChat jsstring
  | DeleteChat ref
  | RenameChat ref jsstring
  | SendMessage ref jsstring GeminiLLM
  | UpdateSummary ref GeminiLLM
  | GetChats

fun target_ok :: "op \<Rightarrow> world \<Rightarrow> bool" where
  "target_ok (MakeChat nm) w = True"
| "target_ok (DeleteChat c) w = (c < nextChat w)"
| "target_ok (RenameChat c nm) w = (c < nextChat w)"
| "target_ok (SendMessage c cont llm) w = (c < nextChat w)"
| "target_ok (UpdateSummary c llm) w = (c < nextChat w)"
| "target_ok GetChats w = True"

fun perform :: "op \<Rightarrow> world \<Rightarrow> world" where
  "perform (MakeChat nm) w = snd (makeChat nm w)"
| "perform (DeleteChat c) w = deleteChat c w"
| "perform (RenameChat c nm) w = renameChat c nm w"
| "perform (SendMessage c cont llm) w = snd (sendMessage c cont llm w)"
| "perform (UpdateSummary c llm) w = snd (updateSummary c llm w)"
| "perform GetChats w = snd (getChats w)"

fun run :: "op list \<Rightarrow> world \<Rightarrow> world option" where
  "run [] w = Some w"
| "run (x # xs) w = (if target_ok x w then run xs (perform x w) else None)"

text \<open>
  The statements that save a message, as \<open>sendMessage\<close> runs them for the user's
  and for the model's message: the object literal with its \<open>Date.now()\<close>, the
  \<open>push\<close>, and \<open>appendToHistory\<close>.
\<close>

definition recordMessage :: "ref \<Rightarrow> role \<Rightarrow> jsstring \<Rightarrow> world \<Rightarrow> world" where
  "recordMessage chat rl cont w =
     (let (t, w1) = Date_now w;
          (m, w2) = allocMessage \<lparr>role = rl, content = cont, timestamp = t\<rparr> w1
      in appendToHistory chat m (pushMessage chat m w2))"

text \<open>A backend that answers every prompt at once with the same text.\<close>

definition answering :: "jsstring \<Rightarrow> GeminiLLM" where
  "answering raw = (\<lambda>prompt w. Resolves 0 raw)"

text \<open>
  A backend that looks at a chat when it is called: it answers at once when the
  chat holds the given messages, and never settles otherwise.
\<close>

definition seeing :: "ref \<Rightarrow> Message list \<Rightarrow> jsstring \<Rightarrow> GeminiLLM" where
  "seeing c ms raw = (\<lambda>prompt v. if messagesOf v c = ms then Resolves 0 raw else Hangs)"

text \<open>
  Worlds for the examples: the empty store, the store after \<open>makeChat("X")\<close>, and
  that chat holding a user message of four and a model message of six code units.
\<close>

definition world0 :: world where
  "world0 = newLLMChat (\<lambda>n. n)"

definition worldX :: world where
  "worldX = snd (makeChat (js ''X'') world0)"

definition worldHi :: world where
  "worldHi = recordMessage 0 Llm (js ''Hello!'') (recordMessage 0 User (js ''Hiya'') worldX)"


text \<open>
  The failure conditions of \<open>validateLLMResponse\<close> in the words of the
  specification, on the stripped text: not parseable as JSON, or not an object, or
  no \<open>reply\<close> key, or a \<open>reply\<close> that is not a string, or a key other than
  \<open>reply\<close>.  An object here is a JSON object; \<open>replyString\<close> is the string
  value of its \<open>reply\<close> property, if it has one.
\<close>

fun isObject :: "json \<Rightarrow> bool" where
  "isObject (JObject ms) = True"
| "isObject _ = False"

fun keysOf :: "json \<Rightarrow> jsstring set" where
  "keysOf (JObject ms) = fst ` set ms"
| "keysOf _ = {}"

fun replyString :: "json \<Rightarrow> jsstring option" where
  "replyString (JObject ms) =
     (case map_of (rev ms) (js ''reply'') of Some (JString x) \<Rightarrow> Some x | _ \<Rightarrow> None)"
| "replyString _ = None"

definition spec_fails :: "jsstring \<Rightarrow> bool" where
  "spec_fails stripped \<longleftrightarrow>
     (case JSON_parse stripped of
        None \<Rightarrow> True
      | Some v \<Rightarrow>
          \<not> isObject v \<or> js ''reply'' \<notin> keysOf v \<or> replyString v = None \<or>
          (\<exists>k \<in> keysOf v. k \<noteq> js ''reply''))"

text \<open>
  Text that stands for itself between the quotes of a JSON string: no control
  character, no quote and no backslash.
\<close>

definition plainText :: "jsstring \<Rightarrow> bool" where
  "plainText x \<longleftrightarrow> (\<forall>c \<in> set x. 0x20 \<le> c \<and> c \<noteq> 0x22 \<and> c \<noteq> 0x5C)"

text \<open>The two \<open>replace\<close> calls of \<open>cleanJSON\<close>, before its \<open>trim\<close>.\<close>

definition stripFences :: "jsstring \<Rightarrow> jsstring" where
  "stripFences raw = replaceFence (replaceFenceLabel raw)"


text \<open>The history of every chat object is its messages, rendered and concatenated.\<close>

definition history_ok :: "world \<Rightarrow> bool" where
  "history_ok w \<longleftrightarrow>
     (\<forall>c \<in> {..<nextChat w}. historyString (chatObjs w c) = concat (map render (messagesOf w c)))"

text \<open>Every object of \<open>w\<close> is in \<open>w'\<close> what it is in \<open>w\<close>, and so is the store's list.\<close>

definition untouched :: "world \<Rightarrow> world \<Rightarrow> bool" where
  "untouched w w' \<longleftrightarrow>
     (\<forall>c \<in> {..<nextChat w}. chatObjs w' c = chatObjs w c) \<and>
     (\<forall>a \<in> {..<nextArr w}. arrays w' a = arrays w a) \<and>
     (\<forall>m \<in> {..<nextMsg w}. msgObjs w' m = msgObjs w m) \<and>
     chats w' = chats w"

text \<open>
  What holds of the store after any sequence of calls: the heap is well formed,
  the store lists its chats in the order of their creation, and the histories
  are as the messages say.
\<close>

definition store_inv :: "world \<Rightarrow> bool" where
  "store_inv w \<longleftrightarrow> heap_ok w \<and> sorted_wrt (<) (chats w) \<and> history_ok w"

text \<open>The assignment \<open>chat.summary = x\<close>.\<close>

definition setSummary :: "ref \<Rightarrow> jsstring \<Rightarrow> world \<Rightarrow> world" where
  "setSummary c x w = w\<lparr>chatObjs := (chatObjs w)(c := (chatObjs w c)\<lparr>summary := x\<rparr>)\<rparr>"

text \<open>\<open>w'\<close> has the objects of \<open>w\<close>, untouched, and possibly more.\<close>

definition extends :: "world \<Rightarrow> world \<Rightarrow> bool" where
  "extends w w' \<longleftrightarrow>
     untouched w w' \<and> nextChat w \<le> nextChat w' \<and> nextArr w \<le> nextArr w' \<and>
     nextMsg w \<le> nextMsg w'"

text \<open>A chat whose history string has been overwritten from outside.\<close>

definition setHistory :: "ref \<Rightarrow> jsstring \<Rightarrow> world \<Rightarrow> world" where
  "setHistory c x w = w\<lparr>chatObjs := (chatObjs w)(c := (chatObjs w c)\<lparr>historyString := x\<rparr>)\<rparr>"

text \<open>
  The registry in the words of the specification: create registers a new
  conversation behind the others, delete removes one by identity, and nothing
  else changes the registry.  A conversation is identified by the number of chat
  objects made before it; \<open>list()\<close> makes one object for each registered
  conversation.
\<close>

fun spec_step :: "op \<Rightarrow> ref list \<times> nat \<Rightarrow> ref list \<times> nat" where
  "spec_step (MakeChat nm) (reg, n) = (reg @ [n], Suc n)"
| "spec_step (DeleteChat c) (reg, n) = (filter (\<lambda>c'. c' \<noteq> c) reg, n)"
| "spec_step (RenameChat c nm) (reg, n) = (reg, n)"
| "spec_step (SendMessage c cont llm) (reg, n) = (reg, n)"
| "spec_step (UpdateSummary c llm) (reg, n) = (reg, n)"
| "spec_step GetChats (reg, n) = (reg, n + length reg)"

definition spec_registry :: "op list \<Rightarrow> ref list" where
  "spec_registry ops = fst (foldl (\<lambda>s x. spec_step x s) ([], 0) ops)"


section \<open>The attempt cycle: what it leaves alone and what it traces\<close>

declare attemptLoop.simps [simp del]

lemma after_simps [simp]:
  "chatObjs (after w evs) = chatObjs w" "nextChat (after w evs) = nextChat w"
  "arrays (after w evs) = arrays w" "nextArr (after w evs) = nextArr w"
  "msgObjs (after w evs) = msgObjs w" "nextMsg (after w evs) = nextMsg w"
  "chats (after w evs) = chats w" "trace (after w evs) = trace w @ evs"
  "dateNow (after w evs) = dateNow w" "ticks (after w evs) = ticks w"
  "after (after w evs) evs' = after w (evs @ evs')"
  by (simp_all add: after_def)

lemma after_Nil [simp]: "after w [] = w"
  by (simp add: after_def)

lemma same_heap_after [simp]: "same_heap w (after w evs)"
  by (simp add: same_heap_def)

lemma messagesOf_after [simp]: "messagesOf (after w evs) c = messagesOf w c"
  by (simp add: messagesOf_def)

lemma effects_after:
  "console_warn k e w = after w [Warn k e]" "sleep ms w = after w [Sleep ms]"
  by (simp_all add: console_warn_def sleep_def after_def)

lemma tryAttempt_world:
  "snd (tryAttempt llm p vs c t w) = after w [Call p (llm p w)]"
  by (simp add: tryAttempt_def executeWithTimeout_def after_def split: sum.splits)

lemma tryAttempt_plain:
  "fst (tryAttempt llm p [] c t w) = attemptResult llm p t w"
  by (simp add: tryAttempt_def executeWithTimeout_def attemptResult_def split: sum.splits)

lemma attemptLoop_unfold:
  "attemptLoop llm p vs c mr t k w =
     (if k \<le> mr then
        (case fst (tryAttempt llm p vs c t w) of
           Inr resp \<Rightarrow> (Inr resp, after w [Call p (llm p w)])
         | Inl e \<Rightarrow>
             (case errorMessage e of
                Inl e' \<Rightarrow> (Inl e', after w [Call p (llm p w)])
              | Inr u \<Rightarrow>
                  if k = mr then (Inl e, after w [Call p (llm p w), Warn k e])
                  else attemptLoop llm p vs c mr t (Suc k)
                         (after w [Call p (llm p w), Warn k e, Sleep (500 * k)])))
      else (Inl (UnexpectedFailure mr), w))"
proof -
  obtain r1 w1 where tr: "tryAttempt llm p vs c t w = (r1, w1)"
    by fastforce
  then have w1: "w1 = after w [Call p (llm p w)]"
    using tryAttempt_world [of llm p vs c t w] by simp
  show ?thesis
    by (subst attemptLoop.simps) (simp add: tr w1 effects_after split: sum.splits)
qed

lemma outline_append [simp]: "outline (xs @ ys) = outline xs @ outline ys"
  by (induction xs rule: outline.induct) simp_all

lemma calls_append [simp]: "calls (xs @ ys) = calls xs @ calls ys"
  by (induction xs rule: calls.induct) simp_all

lemma attemptLoop_rounds:
  "attemptLoop llm p vs c mr t k w = (r, w') \<Longrightarrow>
     \<exists>n evs. w' = after w evs \<and> calls evs = replicate n p \<and>
        outline evs = butlast (concat (map (\<lambda>i. [Inl p, Inr (500 * i)]) [k ..< k + n])) \<and>
        (k \<le> mr \<longrightarrow> 0 < n \<and> k + n \<le> Suc mr) \<and> (mr < k \<longrightarrow> n = 0)"
proof (induction llm p vs c mr t k w rule: attemptLoop.induct)
  case (1 llm p vs c mr t k w)
  note unf = attemptLoop_unfold [of llm p vs c mr t k w]
  let ?call = "Call p (llm p w)"
  have tr: "tryAttempt llm p vs c t w = (fst (tryAttempt llm p vs c t w), after w [?call])"
    using tryAttempt_world [of llm p vs c t w] by (simp add: prod_eq_iff)
  have one: ?case if "w' = after w evs" "calls evs = [p]" "outline evs = [Inl p]" "k \<le> mr" for evs
    using that by (intro exI [of _ 1] exI [of _ evs]) simp
  show ?case
  proof (cases "k \<le> mr")
    case False
    with "1.prems" unf have "w' = after w []" by simp
    with False show ?thesis
      by (intro exI [of _ 0] exI [of _ "[]"]) simp
  next
    case le: True
    show ?thesis
    proof (cases "fst (tryAttempt llm p vs c t w)")
      case (Inr resp)
      with "1.prems" le unf have "w' = after w [?call]" by simp
      then show ?thesis by (rule one) (simp_all add: le)
    next
      case (Inl e)
      show ?thesis
      proof (cases "errorMessage e")
        case bad: (Inl e')
        with "1.prems" le unf Inl have "w' = after w [?call]" by simp
        then show ?thesis by (rule one) (simp_all add: le)
      next
        case good: (Inr u)
        show ?thesis
        proof (cases "k = mr")
          case True
          with "1.prems" le unf Inl good have "w' = after w [?call, Warn k e]" by simp
          then show ?thesis by (rule one) (simp_all add: le)
        next
          case False
          let ?w2 = "after w [?call, Warn k e, Sleep (500 * k)]"
          from "1.prems" le unf Inl good False
          have rec: "attemptLoop llm p vs c mr t (Suc k) ?w2 = (r, w')" by simp
          have eff: "sleep (500 * k) (console_warn k e (after w [?call])) = ?w2"
            by (simp add: effects_after)
          from "1.IH" [OF le tr [symmetric] Inl good False, unfolded eff, OF rec]
          obtain n evs where n: "w' = after ?w2 evs" "calls evs = replicate n p"
            "outline evs =
               butlast (concat (map (\<lambda>i. [Inl p, Inr (500 * i)]) [Suc k ..< Suc k + n]))"
            "Suc k \<le> mr \<longrightarrow> 0 < n \<and> Suc k + n \<le> Suc mr"
            by blast
          from le False have lt: "Suc k \<le> mr" by simp
          with n(4) have pos: "0 < n" and bound: "Suc k + n \<le> Suc mr" by simp_all
          have up: "[k ..< k + Suc n] = k # [Suc k ..< Suc k + n]"
            by (simp add: upt_conv_Cons)
          have ne: "concat (map (\<lambda>i. [Inl p, Inr (500 * i)]) [Suc k ..< Suc k + n]) \<noteq> []"
            using pos by (simp add: upt_conv_Cons)
          show ?thesis
          proof (intro exI [of _ "Suc n"] exI [of _ "[?call, Warn k e, Sleep (500 * k)] @ evs"] conjI)
            show "w' = after w ([?call, Warn k e, Sleep (500 * k)] @ evs)"
              using n(1) by simp
            show "calls ([?call, Warn k e, Sleep (500 * k)] @ evs) = replicate (Suc n) p"
              using n(2) by simp
            show "outline ([?call, Warn k e, Sleep (500 * k)] @ evs) =
                butlast (concat (map (\<lambda>i. [Inl p, Inr (500 * i)]) [k ..< k + Suc n]))"
              unfolding up using n(3) ne by (simp add: butlast_append)
            show "k \<le> mr \<longrightarrow> 0 < Suc n \<and> k + Suc n \<le> Suc mr"
              using bound by simp
            show "mr < k \<longrightarrow> Suc n = 0" using le by simp
          qed
        qed
      qed
    qed
  qed
qed

lemma attemptLoop_frame:
  assumes "attemptLoop llm p vs c mr t k w = (r, w')"
  shows "same_heap w w' \<and> dateNow w' = dateNow w \<and> ticks w' = ticks w"
proof -
  from attemptLoop_rounds [OF assms] obtain evs where "w' = after w evs" by blast
  then show ?thesis by simp
qed


section \<open>Saving a message\<close>

lemma sendMessage_unfold:
  "sendMessage chat cont llm w =
     (let w4 = recordMessage chat User cont w;
          prompt = createConversationPrompt (historyString (chatObjs w4 chat)) cont
      in case callLLMWithValidation llm prompt [] chat 3 10000 w4 of
           (Inl e, w5) \<Rightarrow> (Inl e, w5)
         | (Inr response, w5) \<Rightarrow> (Inr response, recordMessage chat Llm (reply response) w5))"
  by (simp add: sendMessage_def recordMessage_def Let_def split: prod.splits sum.splits)

lemma recordMessage_explicit:
  "recordMessage c rl cont w =
     w\<lparr>ticks := Suc (ticks w),
       msgObjs := (msgObjs w)(nextMsg w := \<lparr>role = rl, content = cont, timestamp = dateNow w (ticks w)\<rparr>),
       nextMsg := Suc (nextMsg w),
       arrays := (arrays w)(messages (chatObjs w c) := arrays w (messages (chatObjs w c)) @ [nextMsg w]),
       chatObjs := (chatObjs w)(c := (chatObjs w c)
          \<lparr>historyString := historyString (chatObjs w c) @
              render \<lparr>role = rl, content = cont, timestamp = dateNow w (ticks w)\<rparr>\<rparr>)\<rparr>"
  by (simp add: recordMessage_def Date_now_def allocMessage_def pushMessage_def
        appendToHistory_def render_def)

lemma recordMessage_messages [simp]:
  "messages (chatObjs (recordMessage c rl cont w) c') = messages (chatObjs w c')"
  by (simp add: recordMessage_explicit)

lemma recordMessage_arrays:
  "arrays (recordMessage c rl cont w) a =
     (if a = messages (chatObjs w c) then arrays w a @ [nextMsg w] else arrays w a)"
  by (simp add: recordMessage_explicit)

lemma recordMessage_msgObjs:
  "msgObjs (recordMessage c rl cont w) m =
     (if m = nextMsg w then \<lparr>role = rl, content = cont, timestamp = dateNow w (ticks w)\<rparr>
      else msgObjs w m)"
  by (simp add: recordMessage_explicit)

lemma recordMessage_counters [simp]:
  "nextChat (recordMessage c rl cont w) = nextChat w"
  "nextArr (recordMessage c rl cont w) = nextArr w"
  "nextMsg (recordMessage c rl cont w) = Suc (nextMsg w)"
  "chats (recordMessage c rl cont w) = chats w"
  by (simp_all add: recordMessage_explicit)

lemma heap_okD1: "heap_ok w \<Longrightarrow> c < nextChat w \<Longrightarrow> messages (chatObjs w c) < nextArr w"
  by (simp add: heap_ok_def)

lemma heap_okD2: "heap_ok w \<Longrightarrow> a < nextArr w \<Longrightarrow> m \<in> set (arrays w a) \<Longrightarrow> m < nextMsg w"
  by (simp add: heap_ok_def)

lemma heap_okD3:
  "heap_ok w \<Longrightarrow> c < nextChat w \<Longrightarrow> c' < nextChat w \<Longrightarrow>
     messages (chatObjs w c) = messages (chatObjs w c') \<Longrightarrow> c = c'"
  by (simp add: heap_ok_def)

lemma heap_okD4: "heap_ok w \<Longrightarrow> c \<in> set (chats w) \<Longrightarrow> c < nextChat w"
  by (simp add: heap_ok_def)

lemma heap_okI:
  assumes "\<And>c. c < nextChat w \<Longrightarrow> messages (chatObjs w c) < nextArr w"
    and "\<And>a m. a < nextArr w \<Longrightarrow> m \<in> set (arrays w a) \<Longrightarrow> m < nextMsg w"
    and "\<And>c c'. c < nextChat w \<Longrightarrow> c' < nextChat w \<Longrightarrow>
           messages (chatObjs w c) = messages (chatObjs w c') \<Longrightarrow> c = c'"
    and "\<And>c. c \<in> set (chats w) \<Longrightarrow> c < nextChat w"
  shows "heap_ok w"
  using assms by (simp add: heap_ok_def)

lemma recordMessage_heap_ok:
  assumes ok: "heap_ok w"
  shows "heap_ok (recordMessage c rl cont w)"
proof (rule heap_okI)
  let ?w' = "recordMessage c rl cont w"
  show "messages (chatObjs ?w' c') < nextArr ?w'" if "c' < nextChat ?w'" for c'
    using heap_okD1 [OF ok, of c'] that by simp
  show "m < nextMsg ?w'" if "a < nextArr ?w'" "m \<in> set (arrays ?w' a)" for a m
  proof -
    from that(2) have "m = nextMsg w \<or> m \<in> set (arrays w a)"
      by (simp add: recordMessage_arrays split: if_splits)
    then show ?thesis
      using heap_okD2 [OF ok, of a m] that(1) by auto
  qed
  show "c1 = c2" if "c1 < nextChat ?w'" "c2 < nextChat ?w'"
      "messages (chatObjs ?w' c1) = messages (chatObjs ?w' c2)" for c1 c2
    using heap_okD3 [OF ok, of c1 c2] that by simp
  show "c' < nextChat ?w'" if "c' \<in> set (chats ?w')" for c'
    using heap_okD4 [OF ok, of c'] that by simp
qed

lemma recordMessage_messagesOf:
  assumes ok: "heap_ok w" and c: "c < nextChat w" and c': "c' < nextChat w"
  shows "messagesOf (recordMessage c rl cont w) c' =
           (if c' = c
            then messagesOf w c @ [\<lparr>role = rl, content = cont, timestamp = dateNow w (ticks w)\<rparr>]
            else messagesOf w c')"
proof -
  have fresh: "nextMsg w \<notin> set (arrays w (messages (chatObjs w c'')))" if "c'' < nextChat w" for c''
    using heap_okD2 [OF ok heap_okD1 [OF ok that], of "nextMsg w"] by auto
  have old: "map (msgObjs (recordMessage c rl cont w)) (arrays w (messages (chatObjs w c''))) =
             map (msgObjs w) (arrays w (messages (chatObjs w c'')))" if "c'' < nextChat w" for c''
    using fresh [OF that] by (auto simp: recordMessage_msgObjs)
  show ?thesis
  proof (cases "c' = c")
    case True
    then show ?thesis
      using old [OF c]
      by (simp add: messagesOf_def recordMessage_arrays recordMessage_msgObjs)
  next
    case False
    with heap_okD3 [OF ok c' c] have "messages (chatObjs w c') \<noteq> messages (chatObjs w c)"
      by auto
    with False show ?thesis
      using old [OF c']
      by (simp add: messagesOf_def recordMessage_arrays)
  qed
qed

lemma recordMessage_chatObjs:
  "chatObjs (recordMessage c rl cont w) c' =
     (if c' = c
      then (chatObjs w c)\<lparr>historyString := historyString (chatObjs w c) @
              render \<lparr>role = rl, content = cont, timestamp = dateNow w (ticks w)\<rparr>\<rparr>
      else chatObjs w c')"
  by (simp add: recordMessage_explicit)

lemma recordMessage_fields [simp]:
  "trace (recordMessage c rl cont w) = trace w"
  "dateNow (recordMessage c rl cont w) = dateNow w"
  "ticks (recordMessage c rl cont w) = Suc (ticks w)"
  by (simp_all add: recordMessage_explicit)

lemma same_heap_messagesOf: "same_heap w w' \<Longrightarrow> messagesOf w' c = messagesOf w c"
  by (simp add: same_heap_def messagesOf_def)

lemma same_heap_heap_ok: "same_heap w w' \<Longrightarrow> heap_ok w' = heap_ok w"
  by (simp add: same_heap_def heap_ok_def)

lemma callLLM_frame:
  "callLLMWithValidation llm p vs c mr t w = (r, w') \<Longrightarrow>
     same_heap w w' \<and> dateNow w' = dateNow w \<and> ticks w' = ticks w"
  unfolding callLLMWithValidation_def by (rule attemptLoop_frame)


section \<open>Creating a chat\<close>

lemma makeChat_explicit:
  "makeChat nm w =
     (nextChat w,
      w\<lparr>arrays := (arrays w)(nextArr w := []),
        nextArr := Suc (nextArr w),
        chatObjs := (chatObjs w)(nextChat w :=
           \<lparr>name = nm, messages = nextArr w, summary = [], historyString = []\<rparr>),
        nextChat := Suc (nextChat w),
        chats := chats w @ [nextChat w]\<rparr>)"
  by (simp add: makeChat_def allocArray_def allocChat_def)

lemma makeChat_fields [simp]:
  "fst (makeChat nm w) = nextChat w"
  "nextChat (snd (makeChat nm w)) = Suc (nextChat w)"
  "nextArr (snd (makeChat nm w)) = Suc (nextArr w)"
  "nextMsg (snd (makeChat nm w)) = nextMsg w"
  "chats (snd (makeChat nm w)) = chats w @ [nextChat w]"
  "msgObjs (snd (makeChat nm w)) = msgObjs w"
  "trace (snd (makeChat nm w)) = trace w"
  "dateNow (snd (makeChat nm w)) = dateNow w"
  "ticks (snd (makeChat nm w)) = ticks w"
  by (simp_all add: makeChat_explicit)

lemma makeChat_chatObjs:
  "chatObjs (snd (makeChat nm w)) c =
     (if c = nextChat w then \<lparr>name = nm, messages = nextArr w, summary = [], historyString = []\<rparr>
      else chatObjs w c)"
  by (simp add: makeChat_explicit)

lemma makeChat_arrays:
  "arrays (snd (makeChat nm w)) a = (if a = nextArr w then [] else arrays w a)"
  by (simp add: makeChat_explicit)

lemma makeChat_heap_ok:
  assumes ok: "heap_ok w"
  shows "heap_ok (snd (makeChat nm w))"
proof (rule heap_okI)
  let ?w' = "snd (makeChat nm w)"
  show "messages (chatObjs ?w' c) < nextArr ?w'" if "c < nextChat ?w'" for c
  proof (cases "c = nextChat w")
    case True then show ?thesis by (simp add: makeChat_chatObjs)
  next
    case False
    with that have "c < nextChat w" by simp
    from heap_okD1 [OF ok this] False show ?thesis by (simp add: makeChat_chatObjs)
  qed
  show "m < nextMsg ?w'" if "a < nextArr ?w'" "m \<in> set (arrays ?w' a)" for a m
  proof (cases "a = nextArr w")
    case True with that show ?thesis by (simp add: makeChat_arrays)
  next
    case False
    with that have "a < nextArr w" "m \<in> set (arrays w a)" by (simp_all add: makeChat_arrays)
    from heap_okD2 [OF ok this] show ?thesis by simp
  qed
  show "c1 = c2" if "c1 < nextChat ?w'" "c2 < nextChat ?w'"
      "messages (chatObjs ?w' c1) = messages (chatObjs ?w' c2)" for c1 c2
  proof -
    have old: "messages (chatObjs w c) \<noteq> nextArr w" if "c < nextChat w" for c
      using heap_okD1 [OF ok that] by simp
    have b1: "c1 = nextChat w \<or> c1 < nextChat w" using that(1) by auto
    have b2: "c2 = nextChat w \<or> c2 < nextChat w" using that(2) by auto
    from b1 b2 consider "c1 = nextChat w" "c2 = nextChat w"
      | "c1 = nextChat w" "c2 < nextChat w"
      | "c1 < nextChat w" "c2 = nextChat w"
      | "c1 < nextChat w" "c2 < nextChat w"
      by blast
    then show ?thesis
    proof cases
      case 1 then show ?thesis by simp
    next
      case 2 with that(3) old [of c2] show ?thesis by (simp add: makeChat_chatObjs)
    next
      case 3 with that(3) old [of c1] show ?thesis by (simp add: makeChat_chatObjs)
    next
      case 4 with that(3) heap_okD3 [OF ok, of c1 c2] show ?thesis
        by (simp add: makeChat_chatObjs)
    qed
  qed
  show "c < nextChat ?w'" if "c \<in> set (chats ?w')" for c
    using heap_okD4 [OF ok, of c] that by auto
qed

lemma newLLMChat_heap_ok: "heap_ok (newLLMChat clock)"
  by (simp add: heap_ok_def newLLMChat_def)


section \<open>The example worlds\<close>

lemma worldX_facts:
  "heap_ok worldX" "nextChat worldX = 1" "messagesOf worldX 0 = []" "chats worldX = [0]"
  "dateNow worldX = (\<lambda>n. n)" "ticks worldX = 0" "trace worldX = []"
  "chatObjs worldX 0 = \<lparr>name = js ''X'', messages = 0, summary = [], historyString = []\<rparr>"
  unfolding worldX_def world0_def
  by (simp add: makeChat_heap_ok newLLMChat_heap_ok,
      simp_all add: makeChat_explicit newLLMChat_def messagesOf_def)

lemma worldHi_facts:
  "heap_ok worldHi" "nextChat worldHi = 1" "chats worldHi = [0]"
  "messagesOf worldHi 0 =
     [\<lparr>role = User, content = js ''Hiya'', timestamp = 0\<rparr>,
      \<lparr>role = Llm, content = js ''Hello!'', timestamp = 1\<rparr>]"
  "trace worldHi = []"
  "summary (chatObjs worldHi 0) = []"
proof -
  let ?w1 = "recordMessage 0 User (js ''Hiya'') worldX"
  have ok1: "heap_ok ?w1" by (rule recordMessage_heap_ok) (rule worldX_facts)
  show "heap_ok worldHi" unfolding worldHi_def by (rule recordMessage_heap_ok) (rule ok1)
  show "nextChat worldHi = 1" "chats worldHi = [0]" "trace worldHi = []"
    unfolding worldHi_def by (simp_all add: worldX_facts)
  have m1: "messagesOf ?w1 0 = [\<lparr>role = User, content = js ''Hiya'', timestamp = 0\<rparr>]"
    using recordMessage_messagesOf [OF worldX_facts(1), of 0 0 User "js ''Hiya''"]
    by (simp add: worldX_facts)
  show "messagesOf worldHi 0 =
     [\<lparr>role = User, content = js ''Hiya'', timestamp = 0\<rparr>,
      \<lparr>role = Llm, content = js ''Hello!'', timestamp = 1\<rparr>]"
    unfolding worldHi_def
    using recordMessage_messagesOf [OF ok1, of 0 0 Llm "js ''Hello!''"]
    by (simp add: worldX_facts m1)
  show "summary (chatObjs worldHi 0) = []"
    unfolding worldHi_def by (simp add: recordMessage_chatObjs worldX_facts)
qed


section \<open>The summary-length validator\<close>

lemma foldl_total:
  "foldl (\<lambda>sum m. sum + length (content (h m))) a ms = a + sum_list (map (\<lambda>m. length (content (h m))) ms)"
  by (induction ms arbitrary: a) simp_all

lemma validateSummaryLength_eq:
  "validateSummaryLength s c w =
     (if 2 * max (sum_list (map (\<lambda>m. length (content m)) (messagesOf w c))) 1 < length s
      then Inl (SummaryTooLong (length s) (sum_list (map (\<lambda>m. length (content m)) (messagesOf w c))))
      else Inr ())"
  by (simp add: validateSummaryLength_def foldl_total messagesOf_def Let_def comp_def mult.commute)

text \<open>
  Claim C7.  \<open>validateSummaryLength\<close> fails, with \<open>SummaryTooLong\<close>, exactly when the
  summary is longer than twice \<open>max total 1\<close>, where \<open>total\<close> is the sum of the
  lengths of the contents of the chat's messages.  With a total of 10, a summary of
  20 code units passes and one of 21 fails.
\<close>

theorem validateSummaryLength_threshold:
  "(let tot = sum_list (map (\<lambda>m. length (content m)) (messagesOf w c)) in
     (isl (validateSummaryLength s c w) \<longleftrightarrow> 2 * max tot 1 < length s) \<and>
     (isl (validateSummaryLength s c w) \<longrightarrow>
        validateSummaryLength s c w = Inl (SummaryTooLong (length s) tot)) \<and>
     (tot = 10 \<and> length s = 20 \<longrightarrow> validateSummaryLength s c w = Inr ()) \<and>
     (tot = 10 \<and> length s = 21 \<longrightarrow> validateSummaryLength s c w = Inl (SummaryTooLong 21 10)))"
proof -
  define tot where "tot = sum_list (map (\<lambda>m. length (content m)) (messagesOf w c))"
  have eq: "validateSummaryLength s c w =
      (if 2 * max tot 1 < length s then Inl (SummaryTooLong (length s) tot) else Inr ())"
    unfolding tot_def by (rule validateSummaryLength_eq)
  have 1: "isl (validateSummaryLength s c w) \<longleftrightarrow> 2 * max tot 1 < length s"
    by (simp add: eq)
  have 2: "isl (validateSummaryLength s c w) \<longrightarrow>
        validateSummaryLength s c w = Inl (SummaryTooLong (length s) tot)"
    by (simp add: eq)
  have 3: "tot = 10 \<and> length s = 20 \<longrightarrow> validateSummaryLength s c w = Inr ()"
    by (simp add: eq)
  have 4: "tot = 10 \<and> length s = 21 \<longrightarrow> validateSummaryLength s c w = Inl (SummaryTooLong 21 10)"
    by (simp add: eq)
  from 1 2 3 4 show ?thesis
    unfolding Let_def tot_def by blast
qed


theorem validateSummaryLength_threshold_witness:
  "sum_list (map (\<lambda>m. length (content m)) (messagesOf worldHi 0)) = 10 \<and>
   length (js ''12345678901234567890'') = 20 \<and>
   length (js ''123456789012345678901'') = 21 \<and>
   validateSummaryLength (js ''12345678901234567890'') 0 worldHi = Inr () \<and>
   validateSummaryLength (js ''123456789012345678901'') 0 worldHi = Inl (SummaryTooLong 21 10)"
proof -
  have t: "sum_list (map (\<lambda>m. length (content m)) (messagesOf worldHi 0)) = 10"
    by (simp add: worldHi_facts js_def)
  have l20: "length (js ''12345678901234567890'') = 20" by (simp add: js_def)
  have l21: "length (js ''123456789012345678901'') = 21" by (simp add: js_def)
  note th20 = validateSummaryLength_threshold [of worldHi 0 "js ''12345678901234567890''", unfolded Let_def t]
  note th21 = validateSummaryLength_threshold [of worldHi 0 "js ''123456789012345678901''", unfolded Let_def t]
  have a: "validateSummaryLength (js ''12345678901234567890'') 0 worldHi = Inr ()"
    using th20 l20 by blast
  have b: "validateSummaryLength (js ''123456789012345678901'') 0 worldHi = Inl (SummaryTooLong 21 10)"
    using th21 l21 by blast
  from t l20 l21 a b show ?thesis by blast
qed


section \<open>updateSummary\<close>

text \<open>
  Claim C8.  On a chat without messages \<open>updateSummary\<close> fails with the
  empty-chat error and returns the world as it was: no prompt went to the backend,
  and messages, summary and history are untouched.
\<close>

theorem updateSummary_empty:
  "messagesOf w c = [] \<Longrightarrow> updateSummary c llm w = (Inl EmptyChat, w)"
  by (simp add: updateSummary_def messagesOf_def)

theorem updateSummary_empty_witness:
  \<open>messagesOf worldX 0 = [] \<and>
   updateSummary 0 (answering (js ''{"reply":"S"}'')) worldX = (Inl EmptyChat, worldX)\<close>
proof -
  have e: "messagesOf worldX 0 = []" by (rule worldX_facts)
  from e updateSummary_empty [OF e] show ?thesis by blast
qed


section \<open>Three attempts\<close>

lemma attemptLoop_success:
  assumes "fst (tryAttempt llm p vs c t w) = Inr resp" "k \<le> mr"
  shows "attemptLoop llm p vs c mr t k w = (Inr resp, after w [Call p (llm p w)])"
  using assms by (subst attemptLoop_unfold) simp

lemma attemptLoop_crash:
  assumes "fst (tryAttempt llm p vs c t w) = Inl e" "errorMessage e = Inl x" "k \<le> mr"
  shows "attemptLoop llm p vs c mr t k w = (Inl x, after w [Call p (llm p w)])"
  using assms by (subst attemptLoop_unfold) simp

lemma attemptLoop_last:
  assumes "fst (tryAttempt llm p vs c t w) = Inl e" "errorMessage e = Inr u"
  shows "attemptLoop llm p vs c mr t mr w = (Inl e, after w [Call p (llm p w), Warn mr e])"
  using assms by (subst attemptLoop_unfold) simp

lemma attemptLoop_retry:
  assumes "fst (tryAttempt llm p vs c t w) = Inl e" "errorMessage e = Inr u" "k < mr"
  shows "attemptLoop llm p vs c mr t k w =
           attemptLoop llm p vs c mr t (Suc k)
             (after w [Call p (llm p w), Warn k e, Sleep (500 * k)])"
  using assms by (subst attemptLoop_unfold) simp

lemma callLLM_first_success:
  assumes "fst (tryAttempt llm p vs c t w) = Inr r" "1 \<le> mr"
  shows "callLLMWithValidation llm p vs c mr t w = (Inr r, after w [Call p (llm p w)])"
  unfolding callLLMWithValidation_def using assms by (intro attemptLoop_success) simp_all


lemma callLLM_third:
  fixes llm :: GeminiLLM and p :: jsstring and w :: world and e1 e2 :: error
  defines "o1 \<equiv> llm p w"
  defines "v2 \<equiv> after w [Call p o1, Warn 1 e1, Sleep 500]"
  defines "o2 \<equiv> llm p v2"
  assumes a1: "fst (tryAttempt llm p vs c t w) = Inl e1" and m1: "errorMessage e1 = Inr u1"
    and a2: "fst (tryAttempt llm p vs c t v2) = Inl e2" and m2: "errorMessage e2 = Inr u2"
  shows "callLLMWithValidation llm p vs c 3 t w =
           attemptLoop llm p vs c 3 t 3
             (after w [Call p o1, Warn 1 e1, Sleep 500, Call p o2, Warn 2 e2, Sleep 1000])"
proof -
  have s2: "Suc (Suc 0) = 2" and s3: "Suc 2 = 3" by simp_all
  have "callLLMWithValidation llm p vs c 3 t w =
      attemptLoop llm p vs c 3 t (Suc 0) w"
    by (simp add: callLLMWithValidation_def)
  also have "\<dots> = attemptLoop llm p vs c 3 t (Suc (Suc 0))
      (after w [Call p (llm p w), Warn (Suc 0) e1, Sleep (500 * Suc 0)])"
    by (rule attemptLoop_retry [OF a1 m1]) simp
  also have "\<dots> = attemptLoop llm p vs c 3 t 2 v2"
    by (simp add: s2 v2_def o1_def)
  also have "\<dots> = attemptLoop llm p vs c 3 t (Suc 2)
      (after v2 [Call p (llm p v2), Warn 2 e2, Sleep (500 * 2)])"
    by (rule attemptLoop_retry [OF a2 m2]) simp
  also have "\<dots> = attemptLoop llm p vs c 3 t 3
      (after w [Call p o1, Warn 1 e1, Sleep 500, Call p o2, Warn 2 e2, Sleep 1000])"
    by (simp add: s3 v2_def o2_def)
  finally show ?thesis .
qed

lemma sendMessage_split:
  assumes w4: "w4 = recordMessage c User cont w"
    and p: "p = createConversationPrompt (historyString (chatObjs w4 c)) cont"
    and cyc: "callLLMWithValidation llm p [] c 3 10000 w4 = (r, w5)"
  shows "sendMessage c cont llm w =
           (r, case r of Inl e \<Rightarrow> w5 | Inr resp \<Rightarrow> recordMessage c Llm (reply resp) w5)"
  using cyc unfolding sendMessage_unfold w4 [symmetric] Let_def p [symmetric]
  by (simp split: sum.splits)

lemma same_heap_chatObjs: "same_heap w w' \<Longrightarrow> chatObjs w' = chatObjs w"
  by (simp add: same_heap_def)

lemma same_heap_nextChat: "same_heap w w' \<Longrightarrow> nextChat w' = nextChat w"
  by (simp add: same_heap_def)

lemma sendMessage_effect:
  fixes w :: world and c :: ref and cont :: jsstring and llm :: GeminiLLM
  assumes ok: "heap_ok w" and c: "c < nextChat w"
  defines "userMsg \<equiv> \<lparr>role = User, content = cont, timestamp = dateNow w (ticks w)\<rparr>"
  defines "w4 \<equiv> recordMessage c User cont w"
  defines "p \<equiv> createConversationPrompt (historyString (chatObjs w c) @ render userMsg) cont"
  shows "messagesOf w4 c = messagesOf w c @ [userMsg]"
    and "historyString (chatObjs w4 c) = historyString (chatObjs w c) @ render userMsg"
    and "\<exists>w5. callLLMWithValidation llm p [] c 3 10000 w4 = (fst (sendMessage c cont llm w), w5)"
    and "fst (sendMessage c cont llm w) = Inl e \<Longrightarrow>
           messagesOf (snd (sendMessage c cont llm w)) c = messagesOf w c @ [userMsg] \<and>
           historyString (chatObjs (snd (sendMessage c cont llm w)) c) =
             historyString (chatObjs w c) @ render userMsg"
    and "fst (sendMessage c cont llm w) = Inr resp \<Longrightarrow>
           messagesOf (snd (sendMessage c cont llm w)) c =
             messagesOf w c @ [userMsg,
               \<lparr>role = Llm, content = reply resp, timestamp = dateNow w (Suc (ticks w))\<rparr>] \<and>
           historyString (chatObjs (snd (sendMessage c cont llm w)) c) =
             historyString (chatObjs w c) @ render userMsg @
               render \<lparr>role = Llm, content = reply resp, timestamp = dateNow w (Suc (ticks w))\<rparr>"
proof -
  show m4: "messagesOf w4 c = messagesOf w c @ [userMsg]"
    unfolding w4_def userMsg_def using recordMessage_messagesOf [OF ok c c] by simp
  show h4: "historyString (chatObjs w4 c) = historyString (chatObjs w c) @ render userMsg"
    unfolding w4_def userMsg_def by (simp add: recordMessage_chatObjs)
  have p': "p = createConversationPrompt (historyString (chatObjs w4 c)) cont"
    by (simp add: p_def h4)
  obtain r w5 where cyc: "callLLMWithValidation llm p [] c 3 10000 w4 = (r, w5)"
    by fastforce
  note sm = sendMessage_split [OF w4_def [THEN meta_eq_to_obj_eq] p' cyc]
  from callLLM_frame [OF cyc] have sh: "same_heap w4 w5" and
    dn: "dateNow w5 = dateNow w4" and tk: "ticks w5 = ticks w4" by simp_all
  have ok4: "heap_ok w4" unfolding w4_def by (rule recordMessage_heap_ok [OF ok])
  have ok5: "heap_ok w5" using same_heap_heap_ok [OF sh] ok4 by simp
  have c5: "c < nextChat w5" using same_heap_nextChat [OF sh] c by (simp add: w4_def)
  have m5: "messagesOf w5 c = messagesOf w c @ [userMsg]"
    using same_heap_messagesOf [OF sh] m4 by simp
  have h5: "historyString (chatObjs w5 c) = historyString (chatObjs w c) @ render userMsg"
    using same_heap_chatObjs [OF sh] h4 by simp
  show "\<exists>w5. callLLMWithValidation llm p [] c 3 10000 w4 = (fst (sendMessage c cont llm w), w5)"
    using cyc sm by auto
  show "messagesOf (snd (sendMessage c cont llm w)) c = messagesOf w c @ [userMsg] \<and>
           historyString (chatObjs (snd (sendMessage c cont llm w)) c) =
             historyString (chatObjs w c) @ render userMsg"
    if "fst (sendMessage c cont llm w) = Inl e"
    using that sm m5 h5 by simp
  show "messagesOf (snd (sendMessage c cont llm w)) c =
             messagesOf w c @ [userMsg,
               \<lparr>role = Llm, content = reply resp, timestamp = dateNow w (Suc (ticks w))\<rparr>] \<and>
           historyString (chatObjs (snd (sendMessage c cont llm w)) c) =
             historyString (chatObjs w c) @ render userMsg @
               render \<lparr>role = Llm, content = reply resp, timestamp = dateNow w (Suc (ticks w))\<rparr>"
    if "fst (sendMessage c cont llm w) = Inr resp"
  proof -
    from that sm have r: "r = Inr resp"
      and w': "snd (sendMessage c cont llm w) = recordMessage c Llm (reply resp) w5" by simp_all
    have t5: "dateNow w5 (ticks w5) = dateNow w (Suc (ticks w))"
      by (simp add: dn tk w4_def)
    show ?thesis
      unfolding w' using recordMessage_messagesOf [OF ok5 c5 c5, of Llm "reply resp"]
      by (simp add: m5 h5 t5 recordMessage_chatObjs)
  qed
qed


section \<open>sendMessage\<close>

lemma sendMessage_traces:
  fixes w :: world and c :: ref and cont :: jsstring and llm :: GeminiLLM
  defines "userMsg \<equiv> \<lparr>role = User, content = cont, timestamp = dateNow w (ticks w)\<rparr>"
  defines "w4 \<equiv> recordMessage c User cont w"
  defines "p \<equiv> createConversationPrompt (historyString (chatObjs w c) @ render userMsg) cont"
  shows "fst (sendMessage c cont llm w) = fst (callLLMWithValidation llm p [] c 3 10000 w4)"
    and "trace (snd (sendMessage c cont llm w)) =
           trace (snd (callLLMWithValidation llm p [] c 3 10000 w4))"
proof -
  have p': "p = createConversationPrompt (historyString (chatObjs w4 c)) cont"
    by (simp add: p_def w4_def userMsg_def recordMessage_chatObjs)
  obtain r w5 where cyc: "callLLMWithValidation llm p [] c 3 10000 w4 = (r, w5)"
    by fastforce
  note sm = sendMessage_split [OF w4_def [THEN meta_eq_to_obj_eq] p' cyc]
  show "fst (sendMessage c cont llm w) = fst (callLLMWithValidation llm p [] c 3 10000 w4)"
    by (simp add: sm cyc)
  show "trace (snd (sendMessage c cont llm w)) =
           trace (snd (callLLMWithValidation llm p [] c 3 10000 w4))"
    by (cases r) (simp_all add: sm cyc)
qed

lemma tryAttempt_cong:
  assumes "llm' p w = llm p w"
  shows "tryAttempt llm' p vs c t w = tryAttempt llm p vs c t w"
  by (simp add: tryAttempt_def executeWithTimeout_def assms)

lemma attemptLoop_cong:
  assumes agree: "\<And>evs. llm' p (after w0 evs) = llm p (after w0 evs)"
  shows "attemptLoop llm' p vs c mr t k (after w0 evs) =
         attemptLoop llm p vs c mr t k (after w0 evs)"
proof (induction "Suc mr - k" arbitrary: k evs)
  case 0
  then have "\<not> k \<le> mr" by simp
  then show ?case
    by (subst attemptLoop_unfold, subst (2) attemptLoop_unfold) simp
next
  case (Suc n)
  then have le: "k \<le> mr" by simp
  let ?v = "after w0 evs"
  have tr: "tryAttempt llm' p vs c t ?v = tryAttempt llm p vs c t ?v"
    by (rule tryAttempt_cong) (rule agree)
  show ?case
  proof (cases "fst (tryAttempt llm p vs c t ?v)")
    case (Inr resp)
    then have "fst (tryAttempt llm' p vs c t ?v) = Inr resp" by (simp add: tr)
    from attemptLoop_success [OF this le] attemptLoop_success [OF Inr le]
    show ?thesis by (simp add: agree)
  next
    case (Inl e)
    then have l': "fst (tryAttempt llm' p vs c t ?v) = Inl e" by (simp add: tr)
    show ?thesis
    proof (cases "errorMessage e")
      case bad: (Inl x)
      from attemptLoop_crash [OF l' bad le] attemptLoop_crash [OF Inl bad le]
      show ?thesis by (simp add: agree)
    next
      case good: (Inr u)
      show ?thesis
      proof (cases "k = mr")
        case True
        from attemptLoop_last [OF l' good, of mr] attemptLoop_last [OF Inl good, of mr]
        show ?thesis unfolding True by (simp add: agree)
      next
        case False
        with le have lt: "k < mr" by simp
        from Suc(2) have m: "n = Suc mr - Suc k" by simp
        show ?thesis
          unfolding attemptLoop_retry [OF l' good lt] attemptLoop_retry [OF Inl good lt]
          using Suc(1) [OF m, of "evs @ [Call p (llm p ?v), Warn k e, Sleep (500 * k)]"]
          by (simp add: agree)
      qed
    qed
  qed
qed

lemma sendMessage_cong:
  assumes "\<And>q evs. llm' q (after (recordMessage c User cont w) evs) =
                    llm q (after (recordMessage c User cont w) evs)"
  shows "sendMessage c cont llm' w = sendMessage c cont llm w"
proof -
  have "attemptLoop llm' p [] c 3 10000 1 (after (recordMessage c User cont w) []) =
        attemptLoop llm p [] c 3 10000 1 (after (recordMessage c User cont w) [])" for p
    by (rule attemptLoop_cong) (rule assms)
  then show ?thesis
    by (simp add: sendMessage_unfold callLLMWithValidation_def Let_def)
qed

lemma attemptLoop_first_call:
  assumes run: "attemptLoop llm p vs c mr t k w = (r, w')" and le: "k \<le> mr"
  shows "\<exists>evs. w' = after w (Call p (llm p w) # evs)"
proof (cases "fst (tryAttempt llm p vs c t w)")
  case (Inr resp)
  from attemptLoop_success [OF this le] run show ?thesis by auto
next
  case (Inl e)
  show ?thesis
  proof (cases "errorMessage e")
    case bad: (Inl x)
    from attemptLoop_crash [OF Inl bad le] run show ?thesis by auto
  next
    case good: (Inr u)
    show ?thesis
    proof (cases "k = mr")
      case True
      from attemptLoop_last [OF Inl good, of mr] run show ?thesis unfolding True by auto
    next
      case False
      with le have lt: "k < mr" by simp
      from run have "attemptLoop llm p vs c mr t (Suc k)
          (after w [Call p (llm p w), Warn k e, Sleep (500 * k)]) = (r, w')"
        unfolding attemptLoop_retry [OF Inl good lt] .
      from attemptLoop_rounds [OF this] obtain evs
        where "w' = after (after w [Call p (llm p w), Warn k e, Sleep (500 * k)]) evs" by blast
      then have "w' = after w (Call p (llm p w) # Warn k e # Sleep (500 * k) # evs)" by simp
      then show ?thesis ..
    qed
  qed
qed

lemma sendMessage_first_call:
  fixes w :: world and c :: ref and cont :: jsstring and llm :: GeminiLLM
  defines "w4 \<equiv> recordMessage c User cont w"
  defines "p \<equiv> createConversationPrompt (historyString (chatObjs w4 c)) cont"
  shows "\<exists>evs. trace (snd (sendMessage c cont llm w)) = trace w @ Call p (llm p w4) # evs"
    and "attemptResult llm p 10000 w4 = Inr resp \<Longrightarrow> fst (sendMessage c cont llm w) = Inr resp"
proof -
  obtain r w5 where cyc: "callLLMWithValidation llm p [] c 3 10000 w4 = (r, w5)"
    by fastforce
  note sm = sendMessage_split [OF w4_def [THEN meta_eq_to_obj_eq] p_def [THEN meta_eq_to_obj_eq] cyc]
  from attemptLoop_first_call [OF cyc [unfolded callLLMWithValidation_def]]
  obtain evs where w5: "w5 = after w4 (Call p (llm p w4) # evs)" by auto
  have "trace (snd (sendMessage c cont llm w)) = trace w @ Call p (llm p w4) # evs"
    by (cases r) (simp_all add: sm w5 w4_def)
  then show "\<exists>evs. trace (snd (sendMessage c cont llm w)) = trace w @ Call p (llm p w4) # evs" ..
  show "fst (sendMessage c cont llm w) = Inr resp" if "attemptResult llm p 10000 w4 = Inr resp"
  proof -
    from that have "fst (tryAttempt llm p [] c 10000 w4) = Inr resp"
      by (simp add: tryAttempt_plain)
    from callLLM_first_success [OF this] cyc have "r = Inr resp" by simp
    with sm show ?thesis by simp
  qed
qed

text \<open>
  Claim C4.  \<open>sendMessage\<close> records the user's message before it turns to the
  backend.  A backend may read the chat when it is called; \<open>recorded\<close> are the
  states in which the chat holds its old messages followed by the user's message,
  and its history the old history followed by the rendering of that message.
  The state in which the first call is made is of this kind, a first call
  is always made, and what a backend would do in any state not of this kind has
  no bearing on \<open>sendMessage\<close>: it is never called in one.  Whatever the outcome,
  exactly one message of role user has been appended when \<open>sendMessage\<close>
  returns; when it fails, the chat holds the old messages and the user's message,
  which is not rolled back, and when it succeeds, the reply's message after them.
\<close>

theorem sendMessage_user_message:
  fixes w :: world and c :: ref and cont :: jsstring and llm :: GeminiLLM
  defines "userMsg \<equiv> \<lparr>role = User, content = cont, timestamp = dateNow w (ticks w)\<rparr>"
  defines "recorded \<equiv> \<lambda>v. messagesOf v c = messagesOf w c @ [userMsg] \<and>
             historyString (chatObjs v c) = historyString (chatObjs w c) @ render userMsg"
  defines "prompt \<equiv> createConversationPrompt (historyString (chatObjs w c) @ render userMsg) cont"
  defines "r \<equiv> fst (sendMessage c cont llm w)" and "w' \<equiv> snd (sendMessage c cont llm w)"
  assumes "heap_ok w" and "c < nextChat w"
  shows "recorded (recordMessage c User cont w) \<and>
         (\<forall>resp. attemptResult llm prompt 10000 (recordMessage c User cont w) = Inr resp
                  \<longrightarrow> r = Inr resp) \<and>
         (\<exists>evs. trace w' =
            trace w @ Call prompt (llm prompt (recordMessage c User cont w)) # evs) \<and>
         (\<forall>llm'. (\<forall>q v. recorded v \<longrightarrow> llm' q v = llm q v) \<longrightarrow>
                  sendMessage c cont llm' w = sendMessage c cont llm w) \<and>
         length (filter (\<lambda>m. role m = User) (drop (length (messagesOf w c)) (messagesOf w' c))) = 1 \<and>
         (case r of
            Inl e \<Rightarrow> recorded w'
          | Inr resp \<Rightarrow>
              messagesOf w' c = messagesOf w c @
                [userMsg, \<lparr>role = Llm, content = reply resp, timestamp = dateNow w (Suc (ticks w))\<rparr>] \<and>
              historyString (chatObjs w' c) = historyString (chatObjs w c) @ render userMsg @
                render \<lparr>role = Llm, content = reply resp, timestamp = dateNow w (Suc (ticks w))\<rparr>)"
proof -
  note eff = sendMessage_effect [OF assms(6,7), where cont = cont, folded userMsg_def]
  let ?w4 = "recordMessage c User cont w"
  have rec4: "recorded ?w4"
    unfolding recorded_def using eff(1,2) by simp
  have p: "prompt = createConversationPrompt (historyString (chatObjs ?w4 c)) cont"
    unfolding prompt_def using eff(2) by simp
  have first: "\<forall>resp. attemptResult llm prompt 10000 ?w4 = Inr resp \<longrightarrow> r = Inr resp"
    unfolding p r_def using sendMessage_first_call(2) [of llm c cont w] by blast
  have call: "\<exists>evs. trace w' = trace w @ Call prompt (llm prompt ?w4) # evs"
    unfolding p w'_def by (rule sendMessage_first_call(1))
  have never: "\<forall>llm'. (\<forall>q v. recorded v \<longrightarrow> llm' q v = llm q v) \<longrightarrow>
                  sendMessage c cont llm' w = sendMessage c cont llm w"
  proof (intro allI impI)
    fix llm' :: GeminiLLM
    assume agree: "\<forall>q v. recorded v \<longrightarrow> llm' q v = llm q v"
    have "recorded (after ?w4 evs)" for evs
      using rec4 by (simp add: recorded_def)
    with agree have "llm' q (after ?w4 evs) = llm q (after ?w4 evs)" for q evs
      by blast
    then show "sendMessage c cont llm' w = sendMessage c cont llm w"
      by (rule sendMessage_cong)
  qed
  have fin: "case r of
            Inl e \<Rightarrow> recorded w'
          | Inr resp \<Rightarrow>
              messagesOf w' c = messagesOf w c @
                [userMsg, \<lparr>role = Llm, content = reply resp, timestamp = dateNow w (Suc (ticks w))\<rparr>] \<and>
              historyString (chatObjs w' c) = historyString (chatObjs w c) @ render userMsg @
                render \<lparr>role = Llm, content = reply resp, timestamp = dateNow w (Suc (ticks w))\<rparr>"
  proof (cases r)
    case (Inl e)
    with eff(4) [where llm = llm and e = e] show ?thesis by (simp add: recorded_def r_def w'_def)
  next
    case (Inr resp)
    with eff(5) [where llm = llm and resp = resp] show ?thesis by (simp add: r_def w'_def)
  qed
  have one: "length (filter (\<lambda>m. role m = User) (drop (length (messagesOf w c)) (messagesOf w' c))) = 1"
    using fin by (cases r) (simp_all add: recorded_def userMsg_def)
  from rec4 first call never one fin show ?thesis by blast
qed


lemma validate_hello:
  \<open>validateLLMResponse (js ''{"reply":"Hello!"}'') = Inr \<lparr>reply = js ''Hello!''\<rparr>\<close>
  by code_simp

lemma callLLM_hangs:
  "callLLMWithValidation (\<lambda>q v. Hangs) p vs c 3 t w =
     (Inl TimedOut, after w [Call p Hangs, Warn 1 TimedOut, Sleep 500,
        Call p Hangs, Warn 2 TimedOut, Sleep 1000, Call p Hangs, Warn 3 TimedOut])"
proof -
  have a: "fst (tryAttempt (\<lambda>q v. Hangs) p vs c t v) = Inl TimedOut" for v
    by (simp add: tryAttempt_def executeWithTimeout_def)
  have m: "errorMessage TimedOut = Inr ()" by simp
  show ?thesis
    unfolding callLLM_third [OF a m a m] attemptLoop_last [OF a m] by simp
qed


theorem sendMessage_user_message_witness:
  \<open>heap_ok worldX \<and> 0 < nextChat worldX \<and>
   fst (sendMessage 0 (js ''Hi'')
      (seeing 0 [\<lparr>role = User, content = js ''Hi'', timestamp = 0\<rparr>] (js ''{"reply":"Hello!"}'')) worldX)
     = Inr \<lparr>reply = js ''Hello!''\<rparr> \<and>
   sendMessage 0 (js ''Hi'')
      (seeing 0 [\<lparr>role = User, content = js ''Hi'', timestamp = 0\<rparr>] (js ''{"reply":"Hello!"}'')) worldX
     = sendMessage 0 (js ''Hi'') (answering (js ''{"reply":"Hello!"}'')) worldX \<and>
   fst (sendMessage 0 (js ''Hi'') (\<lambda>q v. Hangs) worldX) = Inl TimedOut \<and>
   messagesOf (snd (sendMessage 0 (js ''Hi'') (\<lambda>q v. Hangs) worldX)) 0 =
     [\<lparr>role = User, content = js ''Hi'', timestamp = 0\<rparr>]\<close>
proof -
  let ?u = "\<lparr>role = User, content = js ''Hi'', timestamp = 0\<rparr>"
  let ?see = \<open>seeing 0 [?u] (js ''{"reply":"Hello!"}'')\<close>
  let ?ans = \<open>answering (js ''{"reply":"Hello!"}'')\<close>
  let ?w4 = "recordMessage 0 User (js ''Hi'') worldX"
  have h1: "heap_ok worldX" by (rule worldX_facts)
  have h2: "0 < nextChat worldX" by (simp add: worldX_facts)
  have u: "\<lparr>role = User, content = js ''Hi'', timestamp = dateNow worldX (ticks worldX)\<rparr> = ?u"
    by (simp add: worldX_facts)
  have m0: "messagesOf worldX 0 @ [?u] = [?u]" by (simp add: worldX_facts)
  note see = sendMessage_user_message [OF h1 h2, of "js ''Hi''" ?see, unfolded u m0]
  note ans = sendMessage_user_message [OF h1 h2, of "js ''Hi''" ?ans, unfolded u m0]
  note hang = sendMessage_user_message [OF h1 h2, of "js ''Hi''" "\<lambda>q v. Hangs", unfolded u m0]
  from see have rec: "messagesOf ?w4 0 = [?u]" by blast
  have "attemptResult ?see p 10000 ?w4 = Inr \<lparr>reply = js ''Hello!''\<rparr>" for p
    by (simp add: attemptResult_def seeing_def rec validate_hello)
  with see have a: \<open>fst (sendMessage 0 (js ''Hi'') ?see worldX) = Inr \<lparr>reply = js ''Hello!''\<rparr>\<close>
    by blast
  have agree: "?see q v = ?ans q v" if "messagesOf v 0 = [?u]" for q v
    using that by (simp add: seeing_def answering_def)
  from ans agree
  have b: "sendMessage 0 (js ''Hi'') ?see worldX = sendMessage 0 (js ''Hi'') ?ans worldX"
    by blast
  have c: "fst (sendMessage 0 (js ''Hi'') (\<lambda>q v. Hangs) worldX) = Inl TimedOut"
    by (simp add: sendMessage_traces callLLM_hangs)
  note fin = hang [THEN conjunct2, THEN conjunct2, THEN conjunct2, THEN conjunct2, THEN conjunct2,
      unfolded c sum.case]
  from fin have d: "messagesOf (snd (sendMessage 0 (js ''Hi'') (\<lambda>q v. Hangs) worldX)) 0 = [?u]"
    by blast
  from h1 h2 a b c d show ?thesis by blast
qed




lemma scripted_attempt:
  "attemptResult (scripted outs) p t v =
     (case settle t (if length (calls (trace v)) < length outs
                     then outs ! length (calls (trace v)) else Hangs) of
        Inl e \<Rightarrow> Inl e
      | Inr raw \<Rightarrow> validateLLMResponse raw)"
  by (simp add: attemptResult_def scripted_def Let_def)





section \<open>updateSummary: the summary field\<close>

lemma updateSummary_split:
  assumes ne: "messagesOf w c \<noteq> []"
    and cyc: "callLLMWithValidation llm (createSummaryPrompt (historyString (chatObjs w c)))
                [validateSummaryLength] c 3 10000 w = (r, w1)"
  shows "updateSummary c llm w =
           (r, case r of Inl e \<Rightarrow> w1
                | Inr response \<Rightarrow>
                    w1\<lparr>chatObjs := (chatObjs w1)(c := (chatObjs w1 c)\<lparr>summary := reply response\<rparr>)\<rparr>)"
  using ne cyc by (simp add: updateSummary_def messagesOf_def Let_def split: sum.splits)

text \<open>
  Claim C6.  When \<open>updateSummary\<close> succeeds, the chat object differs from before
  in its summary only, which is the reply text, and arrays and message objects are
  as before: no message was appended.  When it fails, heap and store are as
  before, and so the summary is.
\<close>

theorem updateSummary_atomic:
  "let r = fst (updateSummary c llm w); w' = snd (updateSummary c llm w) in
     (case r of
        Inr response \<Rightarrow>
          summary (chatObjs w' c) = reply response \<and>
          chatObjs w' = (chatObjs w)(c := (chatObjs w c)\<lparr>summary := reply response\<rparr>) \<and>
          arrays w' = arrays w \<and> msgObjs w' = msgObjs w \<and> nextMsg w' = nextMsg w \<and>
          messagesOf w' c = messagesOf w c
      | Inl e \<Rightarrow>
          same_heap w w' \<and> summary (chatObjs w' c) = summary (chatObjs w c))"
proof (cases "messagesOf w c = []")
  case True
  then show ?thesis
    by (simp add: updateSummary_def messagesOf_def same_heap_def)
next
  case False
  obtain r w1 where cyc: "callLLMWithValidation llm (createSummaryPrompt (historyString (chatObjs w c)))
                [validateSummaryLength] c 3 10000 w = (r, w1)"
    by fastforce
  from callLLM_frame [OF cyc] have sh: "same_heap w w1" by simp
  note us = updateSummary_split [OF False cyc]
  show ?thesis
  proof (cases r)
    case (Inl e)
    with us sh show ?thesis by (simp add: same_heap_def)
  next
    case (Inr response)
    with us sh show ?thesis by (simp add: same_heap_def messagesOf_def)
  qed
qed


lemma validate_S:
  \<open>validateLLMResponse (js ''{"reply":"S"}'') = Inr \<lparr>reply = js ''S''\<rparr>\<close>
  by code_simp

theorem updateSummary_atomic_witness:
  \<open>fst (updateSummary 0 (answering (js ''{"reply":"S"}'')) worldHi) = Inr \<lparr>reply = js ''S''\<rparr> \<and>
   summary (chatObjs (snd (updateSummary 0 (answering (js ''{"reply":"S"}'')) worldHi)) 0) = js ''S'' \<and>
   messagesOf (snd (updateSummary 0 (answering (js ''{"reply":"S"}'')) worldHi)) 0 = messagesOf worldHi 0 \<and>
   fst (updateSummary 0 (\<lambda>q v. Hangs) worldHi) = Inl TimedOut \<and>
   summary (chatObjs (snd (updateSummary 0 (\<lambda>q v. Hangs) worldHi)) 0) = []\<close>
proof -
  let ?good = \<open>answering (js ''{"reply":"S"}'')\<close>
  let ?p = "createSummaryPrompt (historyString (chatObjs worldHi 0))"
  have ne: "messagesOf worldHi 0 \<noteq> []" by (simp add: worldHi_facts)
  have len: "length (js ''S'') = 1" "length (js ''Hiya'') = 4" "length (js ''Hello!'') = 6"
    by (simp_all add: js_def)
  have t1: "fst (tryAttempt ?good ?p [validateSummaryLength] 0 10000 worldHi) = Inr \<lparr>reply = js ''S''\<rparr>"
    by (simp add: tryAttempt_def executeWithTimeout_def answering_def validate_S
          validateSummaryLength_eq worldHi_facts len)
  have g: "fst (updateSummary 0 ?good worldHi) = Inr \<lparr>reply = js ''S''\<rparr>"
    using updateSummary_split [OF ne callLLM_first_success [OF t1]] by simp
  have b: "fst (updateSummary 0 (\<lambda>q v. Hangs) worldHi) = Inl TimedOut"
    using updateSummary_split [OF ne callLLM_hangs] by simp
  from updateSummary_atomic [of 0 ?good worldHi] g
  have g': "summary (chatObjs (snd (updateSummary 0 ?good worldHi)) 0) = js ''S'' \<and>
     messagesOf (snd (updateSummary 0 ?good worldHi)) 0 = messagesOf worldHi 0"
    by (simp add: Let_def)
  from updateSummary_atomic [of 0 "\<lambda>q v. Hangs" worldHi] b
  have b': "summary (chatObjs (snd (updateSummary 0 (\<lambda>q v. Hangs) worldHi)) 0) = []"
    by (simp add: Let_def worldHi_facts)
  from g g' b b' show ?thesis by blast
qed


section \<open>The end-to-end scenario\<close>

lemma hello_scenario:
  fixes w :: world
  defines "c \<equiv> fst (makeChat (js ''X'') w)"
      and "w1 \<equiv> snd (makeChat (js ''X'') w)"
  defines \<open>res \<equiv> sendMessage c (js ''Hi'') (answering (js ''{"reply":"Hello!"}'')) w1\<close>
  shows "fst res = Inr \<lparr>reply = js ''Hello!''\<rparr>"
    and "messagesOf (snd res) c =
           [\<lparr>role = User, content = js ''Hi'', timestamp = dateNow w (ticks w)\<rparr>,
            \<lparr>role = Llm, content = js ''Hello!'', timestamp = dateNow w (Suc (ticks w))\<rparr>]"
    and "historyString (chatObjs (snd res) c) = js ''[USER] Hi\<newline>[LLM] Hello!\<newline>''"
    and "summary (chatObjs (snd res) c) = []"
    and "name (chatObjs (snd res) c) = js ''X''"
proof -
  let ?llm = \<open>answering (js ''{"reply":"Hello!"}'')\<close>
  let ?w4 = "recordMessage c User (js ''Hi'') w1"
  let ?p = "createConversationPrompt (historyString (chatObjs ?w4 c)) (js ''Hi'')"
  define w5 where "w5 = after ?w4 [Call ?p (?llm ?p ?w4)]"
  define w2 where "w2 = recordMessage c Llm (js ''Hello!'') w5"
  have c: "c = nextChat w" by (simp add: c_def)
  have t1: "fst (tryAttempt ?llm ?p [] c 10000 ?w4) = Inr \<lparr>reply = js ''Hello!''\<rparr>"
    by (simp add: tryAttempt_plain attemptResult_def answering_def validate_hello)
  have res: "res = (Inr \<lparr>reply = js ''Hello!''\<rparr>, w2)"
    unfolding res_def w2_def w5_def
    using sendMessage_split [OF refl refl callLLM_first_success [OF t1]] by simp
  show "fst res = Inr \<lparr>reply = js ''Hello!''\<rparr>" by (simp add: res)
  have ch1: "chatObjs w1 c = \<lparr>name = js ''X'', messages = nextArr w, summary = [], historyString = []\<rparr>"
    by (simp add: w1_def c makeChat_chatObjs)
  have n1: "nextMsg w1 = nextMsg w" "dateNow w1 = dateNow w" "ticks w1 = ticks w"
    "arrays w1 (nextArr w) = []"
    by (simp_all add: w1_def makeChat_arrays)
  have f5: "chatObjs w5 = chatObjs ?w4" "arrays w5 = arrays ?w4" "msgObjs w5 = msgObjs ?w4"
    "nextMsg w5 = nextMsg ?w4" "dateNow w5 = dateNow ?w4" "ticks w5 = ticks ?w4"
    by (simp_all add: w5_def)
  have ch2: "messages (chatObjs w2 c) = nextArr w"
    by (simp add: w2_def f5 ch1)
  have arr: "arrays w2 (nextArr w) = [nextMsg w, Suc (nextMsg w)]"
    by (simp add: w2_def recordMessage_arrays f5 ch1 n1)
  have m0: "msgObjs w2 (nextMsg w) = \<lparr>role = User, content = js ''Hi'', timestamp = dateNow w (ticks w)\<rparr>"
    by (simp add: w2_def recordMessage_msgObjs f5 n1)
  have m1: "msgObjs w2 (Suc (nextMsg w)) =
      \<lparr>role = Llm, content = js ''Hello!'', timestamp = dateNow w (Suc (ticks w))\<rparr>"
    by (simp add: w2_def recordMessage_msgObjs f5 n1)
  show "messagesOf (snd res) c =
           [\<lparr>role = User, content = js ''Hi'', timestamp = dateNow w (ticks w)\<rparr>,
            \<lparr>role = Llm, content = js ''Hello!'', timestamp = dateNow w (Suc (ticks w))\<rparr>]"
    by (simp add: res messagesOf_def ch2 arr m0 m1)
  have ch: "chatObjs w2 c = \<lparr>name = js ''X'', messages = nextArr w, summary = [],
      historyString =
        render \<lparr>role = User, content = js ''Hi'', timestamp = dateNow w (ticks w)\<rparr> @
        render \<lparr>role = Llm, content = js ''Hello!'', timestamp = dateNow w (Suc (ticks w))\<rparr>\<rparr>"
    by (simp add: w2_def recordMessage_chatObjs f5 ch1 n1)
  have "render \<lparr>role = User, content = js ''Hi'', timestamp = dateNow w (ticks w)\<rparr> @
        render \<lparr>role = Llm, content = js ''Hello!'', timestamp = dateNow w (Suc (ticks w))\<rparr>
        = js ''[USER] Hi\<newline>[LLM] Hello!\<newline>''"
    by (simp add: render_def toUpperCase_def js_def)
  with ch show "historyString (chatObjs (snd res) c) = js ''[USER] Hi\<newline>[LLM] Hello!\<newline>''"
    by (simp add: res)
  show "summary (chatObjs (snd res) c) = []"
    by (simp add: res ch)
  show "name (chatObjs (snd res) c) = js ''X''"
    by (simp add: res ch)
qed

text \<open>
  Claim C1, as amended.  From any world: after \<open>makeChat("X")\<close> and one
  \<open>sendMessage\<close> of \<open>Hi\<close> against a backend that answers
  \<^verbatim>\<open>{"reply":"Hello!"}\<close>, the call returns that reply, the chat holds exactly the
  user message \<open>Hi\<close> and the message \<open>Hello!\<close> of role \<open>llm\<close> in this order,
  its history is \<open>[USER] Hi\<close>, line feed, \<open>[LLM] Hello!\<close>, line feed, and its
  summary is empty.  The claim names the second role \<open>model\<close> and the history tag
  \<open>[MODEL]\<close>; the source's role is \<open>llm\<close>.
\<close>

theorem end_to_end:
  \<open>let c = fst (makeChat (js ''X'') w);
       w1 = snd (makeChat (js ''X'') w);
       res = sendMessage c (js ''Hi'') (answering (js ''{"reply":"Hello!"}'')) w1
   in fst res = Inr \<lparr>reply = js ''Hello!''\<rparr> \<and>
      messagesOf (snd res) c =
        [\<lparr>role = User, content = js ''Hi'', timestamp = dateNow w (ticks w)\<rparr>,
         \<lparr>role = Llm, content = js ''Hello!'', timestamp = dateNow w (Suc (ticks w))\<rparr>] \<and>
      historyString (chatObjs (snd res) c) = js ''[USER] Hi\<newline>[LLM] Hello!\<newline>'' \<and>
      summary (chatObjs (snd res) c) = [] \<and>
      name (chatObjs (snd res) c) = js ''X''\<close>
  unfolding Let_def using hello_scenario [of w] by blast

theorem end_to_end_counterexample:
  \<open>historyString (chatObjs (snd (sendMessage 0 (js ''Hi'')
       (answering (js ''{"reply":"Hello!"}'')) worldX)) 0)
     \<noteq> js ''[USER] Hi\<newline>[MODEL] Hello!\<newline>''\<close>
proof -
  have c: "fst (makeChat (js ''X'') world0) = 0"
    by (simp add: world0_def newLLMChat_def)
  have "js ''[USER] Hi\<newline>[LLM] Hello!\<newline>'' \<noteq> js ''[USER] Hi\<newline>[MODEL] Hello!\<newline>''"
    by (simp add: js_def)
  with hello_scenario(3) [of world0] show ?thesis
    unfolding c worldX_def [symmetric] by simp
qed


section \<open>validateLLMResponse against the specification\<close>

lemma more_than_one:
  assumes "x \<in> set ks"
  shows "1 < length (remdups ks) \<longleftrightarrow> (\<exists>k \<in> set ks. k \<noteq> x)"
proof -
  have len: "length (remdups ks) = card (set ks)"
    by (simp add: length_remdups_card_conv)
  show ?thesis
  proof
    assume "1 < length (remdups ks)"
    with len have "1 < card (set ks)" by simp
    then have "set ks \<noteq> {x}" by auto
    with assms show "\<exists>k \<in> set ks. k \<noteq> x" by auto
  next
    assume "\<exists>k \<in> set ks. k \<noteq> x"
    then obtain k where k: "k \<in> set ks" "k \<noteq> x" by auto
    with assms have "{x, k} \<subseteq> set ks" by simp
    then have "card {x, k} \<le> card (set ks)" by (intro card_mono) simp_all
    with k len show "1 < length (remdups ks)" by simp
  qed
qed

lemma validateLLMResponse_object:
  assumes "JSON_parse (cleanJSON raw) = Some (JObject ms)"
  shows "validateLLMResponse raw =
           (if js ''reply'' \<notin> fst ` set ms then Inl MissingReply
            else case map_of (rev ms) (js ''reply'') of
                   Some (JString r) \<Rightarrow>
                     if \<exists>k \<in> fst ` set ms. k \<noteq> js ''reply'' then Inl UnexpectedFields
                     else Inr \<lparr>reply = r\<rparr>
                 | _ \<Rightarrow> Inl ReplyNotAString)"
proof (cases "js ''reply'' \<in> fst ` set ms")
  case False
  with assms show ?thesis by (simp add: validateLLMResponse_def)
next
  case True
  then have "js ''reply'' \<in> set (map fst ms)" by simp
  from more_than_one [OF this] have
    "1 < length (remdups (map fst ms)) \<longleftrightarrow> (\<exists>k \<in> fst ` set ms. k \<noteq> js ''reply'')" by simp
  with assms True show ?thesis
    by (simp add: validateLLMResponse_def split: option.splits json.splits)
qed

lemma validateLLMResponse_spec:
  "isl (validateLLMResponse raw) \<longleftrightarrow> spec_fails (cleanJSON raw)"
  "\<not> spec_fails (cleanJSON raw) \<Longrightarrow>
     \<exists>v x. JSON_parse (cleanJSON raw) = Some v \<and> replyString v = Some x \<and>
           validateLLMResponse raw = Inr \<lparr>reply = x\<rparr>"
proof -
  show "isl (validateLLMResponse raw) \<longleftrightarrow> spec_fails (cleanJSON raw)"
  proof (cases "JSON_parse (cleanJSON raw)")
    case None
    then show ?thesis by (simp add: validateLLMResponse_def spec_fails_def)
  next
    case (Some v)
    show ?thesis
    proof (cases v)
      case (JObject ms)
      with Some have p: "JSON_parse (cleanJSON raw) = Some (JObject ms)" by simp
      show ?thesis
        unfolding validateLLMResponse_object [OF p] spec_fails_def p
        by (simp split: option.splits json.splits)
    qed (simp_all add: Some validateLLMResponse_def spec_fails_def)
  qed
  show "\<exists>v x. JSON_parse (cleanJSON raw) = Some v \<and> replyString v = Some x \<and>
           validateLLMResponse raw = Inr \<lparr>reply = x\<rparr>"
    if ns: "\<not> spec_fails (cleanJSON raw)"
  proof -
    from ns obtain v where v: "JSON_parse (cleanJSON raw) = Some v"
      by (auto simp: spec_fails_def split: option.splits)
    with ns obtain ms where ms: "v = JObject ms"
      by (cases v) (auto simp: spec_fails_def)
    from ns v ms obtain x where x: "replyString v = Some x"
      by (auto simp: spec_fails_def)
    from ns v ms x have "validateLLMResponse raw = Inr \<lparr>reply = x\<rparr>"
      unfolding validateLLMResponse_object [OF v [unfolded ms]] spec_fails_def
      by (auto split: option.splits json.splits)
    with v x show ?thesis by blast
  qed
qed

lemma scanString_plain:
  "plainText x \<Longrightarrow> scanString acc n (x @ 0x22 # rest) = Some (acc @ x, n + length x + 1)"
proof (induction x arbitrary: acc n)
  case Nil
  then show ?case by (cases rest) simp_all
next
  case (Cons c x)
  from Cons.prems have c: "0x20 \<le> c" "c \<noteq> 0x22" "c \<noteq> 0x5C" and x: "plainText x"
    by (simp_all add: plainText_def)
  obtain e cs where ecs: "x @ 0x22 # rest = e # cs"
    by (cases "x @ 0x22 # rest") simp_all
  have "scanString acc n ((c # x) @ 0x22 # rest) = scanString acc n (c # e # cs)"
    by (simp add: ecs)
  also have "\<dots> = scanString (acc @ [c]) (Suc n) (e # cs)"
  proof -
    have "(c < 0x20) = False" using c(1) by auto
    with c show ?thesis by simp
  qed
  also have "\<dots> = scanString (acc @ [c]) (Suc n) (x @ 0x22 # rest)"
    by (simp add: ecs)
  also have "\<dots> = Some ((acc @ [c]) @ x, Suc n + length x + 1)"
    by (rule Cons.IH [OF x])
  finally show ?case by simp
qed

lemma plain_reply: "plainText (js ''reply'')"
  by (simp add: plainText_def js_def)

lemma lex_envelope:
  assumes "plainText x"
  shows \<open>lex (js ''{"reply":"'' @ x @ js ''"}'') =
           Some [TLBrace, TString (js ''reply''), TColon, TString x, TRBrace]\<close>
proof -
  define tail where "tail = 0x3A # 0x22 # x @ [0x22, 0x7D]"
  define body where "body = js ''reply'' @ 0x22 # tail"
  have s1: "scanString [] 0 body = Some (js ''reply'', 6)"
    unfolding body_def using scanString_plain [OF plain_reply, of "[]" 0 tail]
    by (simp add: js_def)
  have s2: "scanString [] 0 (x @ [0x22, 0x7D]) = Some (x, length x + 1)"
    using scanString_plain [OF assms, of "[]" 0 "[0x7D]"] by simp
  have l3: "lex tail = Some [TColon, TString x, TRBrace]"
    unfolding tail_def by (simp add: isJsonWs_def s2 consTok_def isDigit_def)
  have split: \<open>js ''{"reply":"'' @ x @ js ''"}'' = 0x7B # 0x22 # body\<close>
    by (simp add: js_def body_def tail_def)
  have d: "drop 6 body = tail"
    by (simp add: js_def body_def)
  show ?thesis
    unfolding split
    by (simp add: isJsonWs_def s1 d l3 consTok_def)
qed

lemma JSON_parse_envelope:
  assumes "plainText x"
  shows \<open>JSON_parse (js ''{"reply":"'' @ x @ js ''"}'') = Some (JObject [(js ''reply'', JString x)])\<close>
  by (simp add: JSON_parse_def lex_envelope [OF assms])


section \<open>Fences\<close>

lemma fence_literal: "js ''```'' = [0x60, 0x60, 0x60]"
  by (simp add: js_def)

lemma ticks_literal: "js ''``'' = [0x60, 0x60]"
  by (simp add: js_def)

lemma trim_core:
  assumes "\<forall>c \<in> set pre. isTrimSpace c" "\<forall>c \<in> set post. isTrimSpace c"
    and "\<not> isTrimSpace a" "\<not> isTrimSpace b"
  shows "trim (pre @ a # m @ b # post) = a # m @ [b]"
proof -
  have 1: "dropWhile isTrimSpace (pre @ a # m @ b # post) = a # m @ b # post"
    using assms(1,3) by (simp add: dropWhile_append3)
  have 2: "rev (a # m @ b # post) = rev post @ b # rev m @ [a]" by simp
  have 3: "dropWhile isTrimSpace (rev post @ b # rev m @ [a]) = b # rev m @ [a]"
    using assms(2,4) by (simp add: dropWhile_append3)
  show ?thesis
    unfolding trim_def 1 2 3 by simp
qed

lemma replaceFenceLabel_head:
  assumes "prefix [0x60, 0x60] (replaceFenceLabel cs)"
  shows "prefix [0x60, 0x60] cs"
proof (cases cs)
  case Nil
  with assms show ?thesis by simp
next
  case (Cons a r)
  show ?thesis
  proof (cases "prefix (js ''```'') cs")
    case True
    then show ?thesis by (cases r) (simp_all add: Cons fence_literal)
  next
    case nf: False
    with Cons have rc: "replaceFenceLabel cs = a # replaceFenceLabel r" by simp
    with assms have a: "a = 0x60" and pr: "prefix [0x60] (replaceFenceLabel r)" by simp_all
    show ?thesis
    proof (cases r)
      case Nil
      with pr show ?thesis by simp
    next
      case (Cons b r')
      show ?thesis
      proof (cases "prefix (js ''```'') r")
        case True
        then show ?thesis using a \<open>cs = a # r\<close> by (simp add: Cons fence_literal)
      next
        case False
        with Cons have "replaceFenceLabel r = b # replaceFenceLabel r'" by simp
        with pr have "b = 0x60" by simp
        with a Cons \<open>cs = a # r\<close> show ?thesis by simp
      qed
    qed
  qed
qed

lemma replaceFenceLabel_no_fence: "\<not> sublist (js ''```'') (replaceFenceLabel xs)"
proof (induction xs rule: replaceFenceLabel.induct)
  case 1
  show ?case by (simp add: fence_literal)
next
  case (2 c cs)
  show ?case
  proof (cases "prefix (js ''```'') (c # cs)")
    case True
    with 2 show ?thesis by (cases "prefix (js ''json'') (drop 2 cs)") simp_all
  next
    case False
    with 2 have ih: "\<not> sublist (js ''```'') (replaceFenceLabel cs)" by simp
    from False have rc: "replaceFenceLabel (c # cs) = c # replaceFenceLabel cs" by simp
    have "\<not> prefix (js ''```'') (c # replaceFenceLabel cs)"
    proof
      assume "prefix (js ''```'') (c # replaceFenceLabel cs)"
      then have c: "c = 0x60" and "prefix [0x60, 0x60] (replaceFenceLabel cs)"
        by (simp_all add: fence_literal)
      from replaceFenceLabel_head [OF this(2)] c have "prefix (js ''```'') (c # cs)"
        by (simp add: fence_literal)
      with False show False ..
    qed
    with ih show ?thesis
      unfolding rc by (simp add: sublist_Cons_right)
  qed
qed

lemma replaceFence_id: "\<not> sublist (js ''```'') xs \<Longrightarrow> replaceFence xs = xs"
proof (induction xs)
  case Nil
  show ?case by simp
next
  case (Cons c cs)
  from Cons.prems have "\<not> prefix (js ''```'') (c # cs)" "\<not> sublist (js ''```'') cs"
    by (simp_all add: sublist_Cons_right)
  with Cons.IH show ?case by simp
qed

lemma sublist_trim: "sublist (trim xs) xs"
proof -
  have "sublist (dropWhile isTrimSpace (rev (dropWhile isTrimSpace xs))) (rev (dropWhile isTrimSpace xs))"
    by (rule suffix_imp_sublist) (rule suffix_dropWhile)
  then have "sublist (trim xs) (dropWhile isTrimSpace xs)"
    unfolding trim_def by (simp add: sublist_rev_left)
  moreover have "sublist (dropWhile isTrimSpace xs) xs"
    by (rule suffix_imp_sublist) (rule suffix_dropWhile)
  ultimately show ?thesis by (rule sublist_order.order.trans)
qed

lemma replaceFenceLabel_id: "\<not> sublist (js ''```'') xs \<Longrightarrow> replaceFenceLabel xs = xs"
proof (induction xs)
  case Nil
  show ?case by simp
next
  case (Cons c cs)
  from Cons.prems have "\<not> prefix (js ''```'') (c # cs)" "\<not> sublist (js ''```'') cs"
    by (simp_all add: sublist_Cons_right)
  with Cons.IH show ?case by simp
qed

lemma stripFences_eq: "stripFences raw = replaceFenceLabel raw"
  by (simp add: stripFences_def replaceFence_id replaceFenceLabel_no_fence)

lemma cleanJSON_eq: "cleanJSON raw = trim (stripFences raw)"
  by (simp add: cleanJSON_def stripFences_def)

lemma prefix_fence_ticks:
  "prefix (js ''```'') ((c # t) @ js ''```'' @ rest) \<longleftrightarrow> prefix (js ''```'') ((c # t) @ js ''``'')"
proof (cases t)
  case Nil
  show ?thesis by (simp add: Nil fence_literal ticks_literal)
next
  case t1: (Cons a ta)
  show ?thesis
  proof (cases ta)
    case Nil
    with t1 show ?thesis by (simp add: fence_literal ticks_literal)
  next
    case (Cons b tb)
    with t1 show ?thesis by (simp add: fence_literal ticks_literal)
  qed
qed

lemma replaceFenceLabel_first:
  assumes "\<not> sublist (js ''```'') (t @ js ''``'')"
  shows "replaceFenceLabel (t @ js ''```'' @ rest) =
           t @ replaceFenceLabel (if prefix (js ''json'') rest then drop 4 rest else rest)"
  using assms
proof (induction t)
  case Nil
  show ?case by (simp add: fence_literal)
next
  case (Cons c t)
  from Cons.prems have np: "\<not> prefix (js ''```'') ((c # t) @ js ''``'')"
    and ns: "\<not> sublist (js ''```'') (t @ js ''``'')"
    by (simp_all add: sublist_Cons_right)
  have "\<not> prefix (js ''```'') ((c # t) @ js ''```'' @ rest)"
    unfolding prefix_fence_ticks by (rule np)
  then have "replaceFenceLabel ((c # t) @ js ''```'' @ rest) =
      c # replaceFenceLabel (t @ js ''```'' @ rest)" by simp
  with Cons.IH [OF ns] show ?case by simp
qed

lemma cleanJSON_no_fence: "\<not> sublist (js ''```'') (cleanJSON raw)"
proof
  assume "sublist (js ''```'') (cleanJSON raw)"
  then have "sublist (js ''```'') (trim (replaceFenceLabel raw))"
    by (simp add: cleanJSON_def replaceFence_id [OF replaceFenceLabel_no_fence])
  from sublist_order.order.trans [OF this sublist_trim]
  show False by (simp add: replaceFenceLabel_no_fence)
qed


section \<open>The reply envelope\<close>

lemma replaceFenceLabel_no_backtick:
  "0x60 \<notin> set ys \<Longrightarrow> replaceFenceLabel (ys @ zs) = ys @ replaceFenceLabel zs"
  by (induction ys) (simp_all add: fence_literal)

lemma prefix_sep:
  assumes "q \<notin> set xs"
  shows "prefix xs (ys @ q # r) \<longleftrightarrow> prefix xs ys"
proof
  assume "prefix xs (ys @ q # r)"
  then consider "prefix xs ys" | us where "xs = ys @ us" "prefix us (q # r)"
    by (auto simp: prefix_append)
  then show "prefix xs ys"
  proof cases
    case 1 then show ?thesis .
  next
    case 2
    from 2(2) have "us = [] \<or> (\<exists>zs. us = q # zs)" by (auto simp: prefix_Cons)
    with 2(1) assms show ?thesis by auto
  qed
next
  assume "prefix xs ys"
  then show "prefix xs (ys @ q # r)" by (rule prefix_prefix)
qed

lemma replaceFenceLabel_quote:
  "replaceFenceLabel (x @ 0x22 # r) = replaceFenceLabel x @ 0x22 # replaceFenceLabel r"
proof (induction x rule: replaceFenceLabel.induct)
  case 1
  show ?case by (simp add: fence_literal)
next
  case (2 c cs)
  have qf: "(0x22 :: 16 word) \<notin> set (js ''```'')" and qj: "(0x22 :: 16 word) \<notin> set (js ''json'')"
    by (simp_all add: js_def)
  have pf: "prefix (js ''```'') (c # cs @ 0x22 # r) \<longleftrightarrow> prefix (js ''```'') (c # cs)"
    using prefix_sep [OF qf, of "c # cs" r] by simp
  show ?case
  proof (cases "prefix (js ''```'') (c # cs)")
    case False
    with 2(3) pf show ?thesis by simp
  next
    case fence: True
    then have len: "2 \<le> length cs" by (cases cs; cases "tl cs") (auto simp: fence_literal)
    then have d2: "drop 2 (cs @ 0x22 # r) = drop 2 cs @ 0x22 # r" by simp
    have pj: "prefix (js ''json'') (drop 2 cs @ 0x22 # r) \<longleftrightarrow> prefix (js ''json'') (drop 2 cs)"
      by (rule prefix_sep [OF qj])
    show ?thesis
    proof (cases "prefix (js ''json'') (drop 2 cs)")
      case True
      then have "4 \<le> length (drop 2 cs)"
        using prefix_length_le [of "js ''json''" "drop 2 cs"] by (simp add: js_def)
      then have d6: "drop 6 (cs @ 0x22 # r) = drop 6 cs @ 0x22 # r" by simp
      from 2(1) [OF fence True] fence True pf pj d2 d6 show ?thesis by simp
    next
      case False
      from 2(2) [OF fence False] fence False pf pj d2 show ?thesis by simp
    qed
  qed
qed

lemma set_replaceFenceLabel: "set (replaceFenceLabel x) \<subseteq> set x"
proof (induction x rule: replaceFenceLabel.induct)
  case 1
  show ?case by simp
next
  case (2 c cs)
  have d: "set (drop n cs) \<subseteq> set (c # cs)" for n
    using set_drop_subset [of n cs] by auto
  show ?case
  proof (cases "prefix (js ''```'') (c # cs)")
    case False
    with 2(3) show ?thesis by auto
  next
    case fence: True
    show ?thesis
    proof (cases "prefix (js ''json'') (drop 2 cs)")
      case True
      from 2(1) [OF fence True] d [of 6] fence True show ?thesis by auto
    next
      case False
      from 2(2) [OF fence False] d [of 2] fence False show ?thesis by auto
    qed
  qed
qed

lemma plainText_stripFences: "plainText x \<Longrightarrow> plainText (stripFences x)"
  using set_replaceFenceLabel [of x] by (auto simp: plainText_def stripFences_eq)

lemma stripFences_fixed: "stripFences x = x \<longleftrightarrow> \<not> sublist (js ''```'') x"
proof
  assume "stripFences x = x"
  with replaceFenceLabel_no_fence [of x] show "\<not> sublist (js ''```'') x"
    by (simp add: stripFences_eq)
next
  assume "\<not> sublist (js ''```'') x"
  then show "stripFences x = x" by (simp add: stripFences_eq replaceFenceLabel_id)
qed

lemma stripFences_envelope:
  \<open>stripFences (js ''{"reply":"'' @ x @ js ''"}'') = js ''{"reply":"'' @ stripFences x @ js ''"}''\<close>
  \<open>stripFences (js ''```json\<newline>{"reply":"'' @ x @ js ''"}\<newline>```'') =
     js ''\<newline>{"reply":"'' @ stripFences x @ js ''"}\<newline>''\<close>
proof -
  have nb: \<open>0x60 \<notin> set (js ''{"reply":'')\<close> \<open>0x60 \<notin> set (js ''\<newline>{"reply":'')\<close>
    by (simp_all add: js_def)
  have e1: \<open>js ''{"reply":"'' @ x @ js ''"}'' = js ''{"reply":'' @ (([] @ 0x22 # x) @ 0x22 # js ''}'')\<close>
    by (simp add: js_def)
  have e2: \<open>js ''```json\<newline>{"reply":"'' @ x @ js ''"}\<newline>```'' =
      js ''```json'' @ (js ''\<newline>{"reply":'' @ (([] @ 0x22 # x) @ 0x22 # js ''}\<newline>```''))\<close>
    by (simp add: js_def)
  have f0: "replaceFenceLabel (js ''```json'' @ ys) = replaceFenceLabel ys" for ys
    by (simp add: js_def)
  have c1: \<open>replaceFenceLabel (js ''}'') = js ''}''\<close>
    and c2: \<open>replaceFenceLabel (js ''}\<newline>```'') = js ''}\<newline>''\<close>
    and c0: "replaceFenceLabel [] = []"
    by (simp_all add: js_def)
  show \<open>stripFences (js ''{"reply":"'' @ x @ js ''"}'') = js ''{"reply":"'' @ stripFences x @ js ''"}''\<close>
    unfolding stripFences_eq e1 replaceFenceLabel_no_backtick [OF nb(1)] replaceFenceLabel_quote c1 c0
    by (simp add: js_def)
  show \<open>stripFences (js ''```json\<newline>{"reply":"'' @ x @ js ''"}\<newline>```'') =
     js ''\<newline>{"reply":"'' @ stripFences x @ js ''"}\<newline>''\<close>
    unfolding stripFences_eq e2 f0 replaceFenceLabel_no_backtick [OF nb(2)] replaceFenceLabel_quote c2 c0
    by (simp add: js_def)
qed

lemma validate_envelope:
  assumes "plainText x"
  shows \<open>validateLLMResponse (js ''{"reply":"'' @ x @ js ''"}'') = Inr \<lparr>reply = stripFences x\<rparr>\<close>
    and \<open>validateLLMResponse (js ''```json\<newline>{"reply":"'' @ x @ js ''"}\<newline>```'') =
           Inr \<lparr>reply = stripFences x\<rparr>\<close>
proof -
  define y where "y = stripFences x"
  define m where \<open>m = js ''"reply":"'' @ y @ js ''"''\<close>
  have py: "plainText y" unfolding y_def by (rule plainText_stripFences [OF assms])
  have b: \<open>js ''{"reply":"'' @ y @ js ''"}'' = 0x7B # m @ [0x7D]\<close>
    and b': \<open>js ''\<newline>{"reply":"'' @ y @ js ''"}\<newline>'' = [0x0A] @ 0x7B # m @ 0x7D # [0x0A]\<close>
    by (simp_all add: m_def js_def)
  have sp: "\<not> isTrimSpace 0x7B" "\<not> isTrimSpace 0x7D" "\<forall>c \<in> set [0x0A]. isTrimSpace c"
    by (simp_all add: isTrimSpace_def)
  have t1: "trim (0x7B # m @ [0x7D]) = 0x7B # m @ [0x7D]"
    using trim_core [of "[]" "[]" "0x7B" "0x7D" m] sp by simp
  have t2: "trim ([0x0A] @ 0x7B # m @ 0x7D # [0x0A]) = 0x7B # m @ [0x7D]"
    using trim_core [OF sp(3) sp(3) sp(1) sp(2), of m] .
  have c1: \<open>cleanJSON (js ''{"reply":"'' @ x @ js ''"}'') = js ''{"reply":"'' @ y @ js ''"}''\<close>
    unfolding cleanJSON_eq stripFences_envelope y_def [symmetric] b t1 ..
  have c2: \<open>cleanJSON (js ''```json\<newline>{"reply":"'' @ x @ js ''"}\<newline>```'') = js ''{"reply":"'' @ y @ js ''"}''\<close>
    unfolding cleanJSON_eq stripFences_envelope y_def [symmetric] b' t2 b ..
  have p1: \<open>JSON_parse (cleanJSON (js ''{"reply":"'' @ x @ js ''"}'')) =
      Some (JObject [(js ''reply'', JString y)])\<close>
    unfolding c1 by (rule JSON_parse_envelope [OF py])
  have p2: \<open>JSON_parse (cleanJSON (js ''```json\<newline>{"reply":"'' @ x @ js ''"}\<newline>```'')) =
      Some (JObject [(js ''reply'', JString y)])\<close>
    unfolding c2 by (rule JSON_parse_envelope [OF py])
  show \<open>validateLLMResponse (js ''{"reply":"'' @ x @ js ''"}'') = Inr \<lparr>reply = stripFences x\<rparr>\<close>
    unfolding validateLLMResponse_object [OF p1] y_def by simp
  show \<open>validateLLMResponse (js ''```json\<newline>{"reply":"'' @ x @ js ''"}\<newline>```'') =
           Inr \<lparr>reply = stripFences x\<rparr>\<close>
    unfolding validateLLMResponse_object [OF p2] y_def by simp
qed


section \<open>What validateLLMResponse accepts\<close>

text \<open>
  Claim C5, as amended.  The stripped text is the raw text with every fence
  deleted and then trimmed of white space at both ends.  \<open>validateLLMResponse\<close>
  fails exactly when this text is not parseable as JSON, or the parsed value is not
  an object, or has no \<open>reply\<close> key, or its \<open>reply\<close> is not a string, or it
  has a key other than \<open>reply\<close>; otherwise it returns the reply string.  The
  text \<^verbatim>\<open>{"reply":"X"}\<close>, bare or between a \<^verbatim>\<open>```json\<close> line and a \<^verbatim>\<open>```\<close>
  line, validates for every \<open>X\<close> without quote, backslash and control character,
  and the reply returned is \<open>X\<close> with its fences deleted: it is \<open>X\<close> exactly
  when no three backticks in a row occur in \<open>X\<close>.  The claim promises \<open>X\<close> for
  every \<open>X\<close>, and takes the text before the trimming for the stripped text.
\<close>

theorem validateLLMResponse_correct:
  \<open>cleanJSON raw = trim (stripFences raw) \<and>
   (isl (validateLLMResponse raw) \<longleftrightarrow> spec_fails (cleanJSON raw)) \<and>
   (\<not> spec_fails (cleanJSON raw) \<longrightarrow>
      (\<exists>v y. JSON_parse (cleanJSON raw) = Some v \<and> replyString v = Some y \<and>
             validateLLMResponse raw = Inr \<lparr>reply = y\<rparr>)) \<and>
   (plainText x \<longrightarrow>
      validateLLMResponse (js ''```json\<newline>{"reply":"'' @ x @ js ''"}\<newline>```'') =
        Inr \<lparr>reply = stripFences x\<rparr> \<and>
      validateLLMResponse (js ''{"reply":"'' @ x @ js ''"}'') = Inr \<lparr>reply = stripFences x\<rparr> \<and>
      (stripFences x = x \<longleftrightarrow> \<not> sublist (js ''```'') x))\<close>
proof (intro conjI impI)
  show "cleanJSON raw = trim (stripFences raw)"
    by (rule cleanJSON_eq)
  show "isl (validateLLMResponse raw) \<longleftrightarrow> spec_fails (cleanJSON raw)"
    by (rule validateLLMResponse_spec)
  show "\<exists>v y. JSON_parse (cleanJSON raw) = Some v \<and> replyString v = Some y \<and>
             validateLLMResponse raw = Inr \<lparr>reply = y\<rparr>"
    if "\<not> spec_fails (cleanJSON raw)"
    using validateLLMResponse_spec(2) [OF that] .
  show "stripFences x = x \<longleftrightarrow> \<not> sublist (js ''```'') x"
    by (rule stripFences_fixed)
  assume p: "plainText x"
  show \<open>validateLLMResponse (js ''```json\<newline>{"reply":"'' @ x @ js ''"}\<newline>```'') =
        Inr \<lparr>reply = stripFences x\<rparr>\<close>
    by (rule validate_envelope(2) [OF p])
  show \<open>validateLLMResponse (js ''{"reply":"'' @ x @ js ''"}'') = Inr \<lparr>reply = stripFences x\<rparr>\<close>
    by (rule validate_envelope(1) [OF p])
qed

theorem validateLLMResponse_correct_witness:
  \<open>plainText (js ''a`b``c'') \<and>
   validateLLMResponse (js ''```json\<newline>{"reply":"a`b``c"}\<newline>```'') = Inr \<lparr>reply = js ''a`b``c''\<rparr> \<and>
   validateLLMResponse (js ''{"reply":"a`b``c"}'') = Inr \<lparr>reply = js ''a`b``c''\<rparr> \<and>
   validateLLMResponse (js ''{"reply":"X"}'') = Inr \<lparr>reply = js ''X''\<rparr> \<and>
   spec_fails (cleanJSON (js ''{"reply":"X","a":1}'')) \<and>
   isl (validateLLMResponse (js ''{"reply":"X","a":1}'')) \<and>
   isl (validateLLMResponse (js ''{"reply":1}'')) \<and>
   isl (validateLLMResponse (js ''{"answer":"X"}''))\<close>
proof -
  have p: "plainText (js ''a`b``c'')" "plainText (js ''X'')"
    by (simp_all add: plainText_def js_def)
  have nf: "\<not> sublist (js ''```'') (js ''a`b``c'')" "\<not> sublist (js ''```'') (js ''X'')"
    by code_simp+
  have e1: \<open>js ''```json\<newline>{"reply":"'' @ js ''a`b``c'' @ js ''"}\<newline>```'' =
      js ''```json\<newline>{"reply":"a`b``c"}\<newline>```''\<close>
    and e2: \<open>js ''{"reply":"'' @ js ''a`b``c'' @ js ''"}'' = js ''{"reply":"a`b``c"}''\<close>
    and e3: \<open>js ''{"reply":"'' @ js ''X'' @ js ''"}'' = js ''{"reply":"X"}''\<close>
    by (simp_all add: js_def)
  note t = validateLLMResponse_correct [THEN conjunct2, THEN conjunct2, THEN conjunct2, rule_format]
  from t [OF p(1)] nf(1)
  have a: \<open>validateLLMResponse (js ''```json\<newline>{"reply":"a`b``c"}\<newline>```'') = Inr \<lparr>reply = js ''a`b``c''\<rparr>\<close>
    and b: \<open>validateLLMResponse (js ''{"reply":"a`b``c"}'') = Inr \<lparr>reply = js ''a`b``c''\<rparr>\<close>
    unfolding e1 e2 by simp_all
  from t [OF p(2)] nf(2)
  have c: \<open>validateLLMResponse (js ''{"reply":"X"}'') = Inr \<lparr>reply = js ''X''\<rparr>\<close>
    unfolding e3 by simp
  have s2: \<open>spec_fails (cleanJSON (js ''{"reply":"X","a":1}''))\<close>
    by code_simp
  have f2: \<open>isl (validateLLMResponse (js ''{"reply":"X","a":1}''))\<close>
    using validateLLMResponse_correct [THEN conjunct2, THEN conjunct1, of \<open>js ''{"reply":"X","a":1}''\<close>] s2
    by simp
  have f3: \<open>isl (validateLLMResponse (js ''{"reply":1}''))\<close> by code_simp
  have f4: \<open>isl (validateLLMResponse (js ''{"answer":"X"}''))\<close> by code_simp
  from p(1) a b c s2 f2 f3 f4 show ?thesis by blast
qed

theorem validateLLMResponse_correct_counterexample:
  \<open>validateLLMResponse (js ''```json\<newline>{"reply":"```"}\<newline>```'') = Inr \<lparr>reply = []\<rparr> \<and>
   validateLLMResponse (js ''{"reply":"```"}'') = Inr \<lparr>reply = []\<rparr> \<and>
   js ''```'' \<noteq> [] \<and>
   spec_fails (stripFences (0xFEFF # js ''{"reply":"X"}'')) \<and>
   validateLLMResponse (0xFEFF # js ''{"reply":"X"}'') = Inr \<lparr>reply = js ''X''\<rparr>\<close>
proof (intro conjI)
  show \<open>validateLLMResponse (js ''```json\<newline>{"reply":"```"}\<newline>```'') = Inr \<lparr>reply = []\<rparr>\<close>
    by code_simp
  show \<open>validateLLMResponse (js ''{"reply":"```"}'') = Inr \<lparr>reply = []\<rparr>\<close>
    by code_simp
  show "js ''```'' \<noteq> []"
    by (simp add: js_def)
  show \<open>spec_fails (stripFences (0xFEFF # js ''{"reply":"X"}''))\<close>
    by code_simp
  show \<open>validateLLMResponse (0xFEFF # js ''{"reply":"X"}'') = Inr \<lparr>reply = js ''X''\<rparr>\<close>
    by code_simp
qed

section \<open>The laws of fence stripping\<close>

lemma first_fence:
  "sublist (js ''```'') xs \<Longrightarrow>
     \<exists>t rest. xs = t @ js ''```'' @ rest \<and> \<not> sublist (js ''```'') (t @ js ''``'')"
proof (induction xs)
  case Nil
  then show ?case by (simp add: fence_literal)
next
  case (Cons c cs)
  show ?case
  proof (cases "prefix (js ''```'') (c # cs)")
    case True
    then obtain rest where "c # cs = [] @ js ''```'' @ rest" by (auto simp: prefix_def)
    moreover have "\<not> sublist (js ''```'') ([] @ js ''``'')" by code_simp
    ultimately show ?thesis by blast
  next
    case False
    with Cons.prems have "sublist (js ''```'') cs" by (simp add: sublist_Cons_right)
    from Cons.IH [OF this] obtain t rest
      where t: "cs = t @ js ''```'' @ rest" "\<not> sublist (js ''```'') (t @ js ''``'')" by blast
    from False have "\<not> prefix (js ''```'') ((c # t) @ js ''```'' @ rest)" by (simp add: t(1))
    then have "\<not> prefix (js ''```'') ((c # t) @ js ''``'')" unfolding prefix_fence_ticks .
    with t(2) have "\<not> sublist (js ''```'') ((c # t) @ js ''``'')" by (simp add: sublist_Cons_right)
    moreover have "c # cs = (c # t) @ js ''```'' @ rest" by (simp add: t(1))
    ultimately show ?thesis by blast
  qed
qed

lemma stripFences_laws:
  "\<not> sublist (js ''```'') t \<Longrightarrow> stripFences t = t"
  "\<not> sublist (js ''```'') (t @ js ''``'') \<Longrightarrow>
     stripFences (t @ js ''```json'' @ rest) = t @ stripFences rest"
  "\<not> sublist (js ''```'') (t @ js ''``'') \<Longrightarrow> \<not> prefix (js ''json'') rest \<Longrightarrow>
     stripFences (t @ js ''```'' @ rest) = t @ stripFences rest"
proof -
  show "stripFences t = t" if "\<not> sublist (js ''```'') t"
    using that by (simp add: stripFences_fixed)
  have lab: "js ''```json'' @ rest = js ''```'' @ (js ''json'' @ rest)"
    by (simp add: js_def)
  have dj: "drop 4 (js ''json'' @ rest) = rest" by (simp add: js_def)
  have pj: "prefix (js ''json'') (js ''json'' @ rest)" by simp
  show "stripFences (t @ js ''```json'' @ rest) = t @ stripFences rest"
    if "\<not> sublist (js ''```'') (t @ js ''``'')"
    unfolding stripFences_eq lab replaceFenceLabel_first [OF that] by (simp only: pj dj if_True)
  show "stripFences (t @ js ''```'' @ rest) = t @ stripFences rest"
    if "\<not> sublist (js ''```'') (t @ js ''``'')" "\<not> prefix (js ''json'') rest"
    unfolding stripFences_eq replaceFenceLabel_first [OF that(1)] using that(2) by simp
qed

lemma stripFences_unique:
  assumes l1: "\<And>t. \<not> sublist (js ''```'') t \<Longrightarrow> f t = t"
    and l2: "\<And>t rest. \<not> sublist (js ''```'') (t @ js ''``'') \<Longrightarrow>
               f (t @ js ''```json'' @ rest) = t @ f rest"
    and l3: "\<And>t rest. \<not> sublist (js ''```'') (t @ js ''``'') \<Longrightarrow> \<not> prefix (js ''json'') rest \<Longrightarrow>
               f (t @ js ''```'' @ rest) = t @ f rest"
  shows "f raw = stripFences raw"
proof (induction raw rule: length_induct)
  case (1 raw)
  show ?case
  proof (cases "sublist (js ''```'') raw")
    case False
    then show ?thesis by (simp add: l1 stripFences_laws(1))
  next
    case True
    from first_fence [OF this] obtain t rest
      where t: "raw = t @ js ''```'' @ rest" "\<not> sublist (js ''```'') (t @ js ''``'')" by blast
    show ?thesis
    proof (cases "prefix (js ''json'') rest")
      case False
      have "length rest < length raw" by (simp add: t(1) js_def)
      with 1 have "f rest = stripFences rest" by blast
      then show ?thesis
        unfolding t(1) l3 [OF t(2) False] stripFences_laws(3) [OF t(2) False] by simp
    next
      case True
      then obtain rest' where r: "rest = js ''json'' @ rest'" by (auto simp: prefix_def)
      have raw: "raw = t @ js ''```json'' @ rest'" by (simp add: t(1) r js_def)
      have "length rest' < length raw" by (simp add: raw js_def)
      with 1 have "f rest' = stripFences rest'" by blast
      then show ?thesis
        unfolding raw l2 [OF t(2)] stripFences_laws(2) [OF t(2)] by simp
    qed
  qed
qed

text \<open>
  Claim C10.  The fence stripping deletes every fence, wherever it stands, and
  keeps the rest.  A text without three backticks in a row is left as it is.
  In any other text, let the first fence begin after \<open>t\<close>, so that no three
  backticks in a row begin inside \<open>t\<close>: then \<open>t\<close> is kept, the fence is
  deleted, together with the label \<open>json\<close> when that follows it directly, and
  the rest of the text is stripped in the same way.  These laws determine the
  stripping: a function that obeys them is \<open>stripFences\<close>.  No stripped and no
  cleaned text contains a fence.  So a reply that itself contains a fence does
  not survive: \<^verbatim>\<open>{"reply":"a```b"}\<close> is a well-formed JSON object whose reply is
  \<^verbatim>\<open>a```b\<close>, and it validates to the different reply \<open>ab\<close>.
\<close>

theorem cleanJSON_strips_every_fence:
  \<open>(\<forall>raw. cleanJSON raw = trim (stripFences raw) \<and>
          \<not> sublist (js ''```'') (stripFences raw) \<and> \<not> sublist (js ''```'') (cleanJSON raw)) \<and>
   (\<forall>t. \<not> sublist (js ''```'') t \<longrightarrow> stripFences t = t) \<and>
   (\<forall>t rest. \<not> sublist (js ''```'') (t @ js ''``'') \<longrightarrow>
      stripFences (t @ js ''```json'' @ rest) = t @ stripFences rest \<and>
      (\<not> prefix (js ''json'') rest \<longrightarrow> stripFences (t @ js ''```'' @ rest) = t @ stripFences rest)) \<and>
   (\<forall>f. (\<forall>t. \<not> sublist (js ''```'') t \<longrightarrow> f t = t) \<and>
        (\<forall>t rest. \<not> sublist (js ''```'') (t @ js ''``'') \<longrightarrow>
           f (t @ js ''```json'' @ rest) = t @ f rest \<and>
           (\<not> prefix (js ''json'') rest \<longrightarrow> f (t @ js ''```'' @ rest) = t @ f rest))
        \<longrightarrow> f = stripFences) \<and>
   JSON_parse (js ''{"reply":"a```b"}'') = Some (JObject [(js ''reply'', JString (js ''a```b''))]) \<and>
   sublist (js ''```'') (js ''a```b'') \<and>
   cleanJSON (js ''{"reply":"a```b"}'') = js ''{"reply":"ab"}'' \<and>
   validateLLMResponse (js ''{"reply":"a```b"}'') = Inr \<lparr>reply = js ''ab''\<rparr> \<and>
   js ''ab'' \<noteq> js ''a```b''\<close>
proof (intro conjI allI impI)
  show "cleanJSON raw = trim (stripFences raw)" for raw
    by (rule cleanJSON_eq)
  show "\<not> sublist (js ''```'') (stripFences raw)" for raw
    by (simp add: stripFences_eq replaceFenceLabel_no_fence)
  show "\<not> sublist (js ''```'') (cleanJSON raw)" for raw
    by (rule cleanJSON_no_fence)
  show "stripFences t = t" if "\<not> sublist (js ''```'') t" for t
    by (rule stripFences_laws(1) [OF that])
  show "stripFences (t @ js ''```json'' @ rest) = t @ stripFences rest"
    if "\<not> sublist (js ''```'') (t @ js ''``'')" for t rest
    by (rule stripFences_laws(2) [OF that])
  show "stripFences (t @ js ''```'' @ rest) = t @ stripFences rest"
    if "\<not> sublist (js ''```'') (t @ js ''``'')" "\<not> prefix (js ''json'') rest" for t rest
    by (rule stripFences_laws(3) [OF that])
  show "f = stripFences"
    if "(\<forall>t. \<not> sublist (js ''```'') t \<longrightarrow> f t = t) \<and>
        (\<forall>t rest. \<not> sublist (js ''```'') (t @ js ''``'') \<longrightarrow>
           f (t @ js ''```json'' @ rest) = t @ f rest \<and>
           (\<not> prefix (js ''json'') rest \<longrightarrow> f (t @ js ''```'' @ rest) = t @ f rest))" for f
  proof
    fix raw
    from that show "f raw = stripFences raw"
      by (intro stripFences_unique) blast+
  qed
  show \<open>JSON_parse (js ''{"reply":"a```b"}'') = Some (JObject [(js ''reply'', JString (js ''a```b''))])\<close>
    by code_simp
  show \<open>sublist (js ''```'') (js ''a```b'')\<close>
    by code_simp
  show \<open>cleanJSON (js ''{"reply":"a```b"}'') = js ''{"reply":"ab"}''\<close>
    by code_simp
  show \<open>validateLLMResponse (js ''{"reply":"a```b"}'') = Inr \<lparr>reply = js ''ab''\<rparr>\<close>
    by code_simp
  show \<open>js ''ab'' \<noteq> js ''a```b''\<close>
    by (simp add: js_def)
qed

theorem cleanJSON_strips_every_fence_witness:
  \<open>\<not> sublist (js ''```'') (js ''x'' @ js ''``'') \<and>
   \<not> sublist (js ''```'') (js ''y'') \<and>
   stripFences (js ''x'' @ js ''```json'' @ js ''y'') = js ''x'' @ js ''y'' \<and>
   \<not> prefix (js ''json'') (js ''y'') \<and>
   stripFences (js ''x'' @ js ''```'' @ js ''y'') = js ''x'' @ js ''y'' \<and>
   validateLLMResponse (js ''{"reply":"a```b"}'') = Inr \<lparr>reply = js ''ab''\<rparr>\<close>
proof -
  have n1: "\<not> sublist (js ''```'') (js ''x'' @ js ''``'')"
    and n2: "\<not> sublist (js ''```'') (js ''y'')"
    and n3: "\<not> prefix (js ''json'') (js ''y'')"
    by code_simp+
  note th = cleanJSON_strips_every_fence
  from th have l1: "stripFences (js ''y'') = js ''y''" using n2 by blast
  from th n1 have l2: "stripFences (js ''x'' @ js ''```json'' @ js ''y'') = js ''x'' @ stripFences (js ''y'')"
    by blast
  from th n1 n3 have l3: "stripFences (js ''x'' @ js ''```'' @ js ''y'') = js ''x'' @ stripFences (js ''y'')"
    by blast
  from th have ex: \<open>validateLLMResponse (js ''{"reply":"a```b"}'') = Inr \<lparr>reply = js ''ab''\<rparr>\<close>
    by blast
  from n1 n2 n3 l1 l2 l3 ex show ?thesis by simp
qed


section \<open>What every call preserves\<close>


lemma history_okD:
  "history_ok w \<Longrightarrow> c < nextChat w \<Longrightarrow>
     historyString (chatObjs w c) = concat (map render (messagesOf w c))"
  by (simp add: history_ok_def)

lemma history_okI:
  "(\<And>c. c < nextChat w \<Longrightarrow> historyString (chatObjs w c) = concat (map render (messagesOf w c)))
     \<Longrightarrow> history_ok w"
  by (simp add: history_ok_def)

lemma store_inv_same_heap:
  assumes sh: "same_heap w w'" and inv: "store_inv w"
  shows "store_inv w'"
proof -
  from same_heap_heap_ok [OF sh] inv have 1: "heap_ok w'" by (simp add: store_inv_def)
  from sh inv have 2: "sorted_wrt (<) (chats w')" by (simp add: store_inv_def same_heap_def)
  from sh inv have 3: "history_ok w'"
    by (simp add: store_inv_def history_ok_def messagesOf_def same_heap_def)
  from 1 2 3 show ?thesis by (simp add: store_inv_def)
qed

lemma store_inv_recordMessage:
  assumes inv: "store_inv w" and c: "c < nextChat w"
  shows "store_inv (recordMessage c rl x w)"
proof -
  from inv have ok: "heap_ok w" and so: "sorted_wrt (<) (chats w)" and h: "history_ok w"
    by (simp_all add: store_inv_def)
  have "history_ok (recordMessage c rl x w)"
  proof (rule history_okI)
    fix c' assume "c' < nextChat (recordMessage c rl x w)"
    then have c': "c' < nextChat w" by simp
    show "historyString (chatObjs (recordMessage c rl x w) c') =
          concat (map render (messagesOf (recordMessage c rl x w) c'))"
      using recordMessage_messagesOf [OF ok c c', of rl x] history_okD [OF h c']
      by (cases "c' = c") (simp_all add: recordMessage_chatObjs)
  qed
  with recordMessage_heap_ok [OF ok, of c rl x] so show ?thesis
    by (simp add: store_inv_def)
qed

lemma sendMessage_shape:
  obtains w5 where "same_heap (recordMessage c User cont w) w5"
    and "snd (sendMessage c cont llm w) = w5 \<or>
         (\<exists>x. snd (sendMessage c cont llm w) = recordMessage c Llm x w5)"
proof -
  obtain r w5 where cyc: "callLLMWithValidation llm
      (createConversationPrompt (historyString (chatObjs (recordMessage c User cont w) c)) cont)
      [] c 3 10000 (recordMessage c User cont w) = (r, w5)"
    by fastforce
  from callLLM_frame [OF cyc] have sh: "same_heap (recordMessage c User cont w) w5" by simp
  from sendMessage_split [OF refl refl cyc]
  have "snd (sendMessage c cont llm w) = w5 \<or>
         (\<exists>x. snd (sendMessage c cont llm w) = recordMessage c Llm x w5)"
    by (cases r) auto
  with sh that show thesis by blast
qed

lemma sendMessage_preserves:
  assumes rec: "\<And>w rl x. P w \<Longrightarrow> P (recordMessage c rl x w)"
    and sh: "\<And>w w'. same_heap w w' \<Longrightarrow> P w \<Longrightarrow> P w'"
    and P: "P w"
  shows "P (snd (sendMessage c cont llm w))"
proof -
  obtain w5 where w5: "same_heap (recordMessage c User cont w) w5"
    and alt: "snd (sendMessage c cont llm w) = w5 \<or>
         (\<exists>x. snd (sendMessage c cont llm w) = recordMessage c Llm x w5)"
    by (rule sendMessage_shape)
  have P5: "P w5" by (rule sh [OF w5 rec [OF P]])
  from alt show ?thesis
  proof
    assume "snd (sendMessage c cont llm w) = w5"
    with P5 show ?thesis by simp
  next
    assume "\<exists>x. snd (sendMessage c cont llm w) = recordMessage c Llm x w5"
    then obtain x where "snd (sendMessage c cont llm w) = recordMessage c Llm x w5" ..
    then show ?thesis by (simp only: rec [OF P5])
  qed
qed

lemma updateSummary_shape:
  obtains w1 where "same_heap w w1"
    and "snd (updateSummary c llm w) = w1 \<or>
         (\<exists>x. snd (updateSummary c llm w) = setSummary c x w1)"
proof (cases "messagesOf w c = []")
  case True
  then have "snd (updateSummary c llm w) = w"
    by (simp add: updateSummary_def messagesOf_def)
  moreover have "same_heap w w" by (simp add: same_heap_def)
  ultimately show thesis using that by blast
next
  case False
  obtain r w1 where cyc: "callLLMWithValidation llm (createSummaryPrompt (historyString (chatObjs w c)))
                [validateSummaryLength] c 3 10000 w = (r, w1)"
    by fastforce
  from callLLM_frame [OF cyc] have sh: "same_heap w w1" by simp
  from updateSummary_split [OF False cyc]
  have "snd (updateSummary c llm w) = w1 \<or>
         (\<exists>x. snd (updateSummary c llm w) = setSummary c x w1)"
    by (cases r) (auto simp: setSummary_def)
  with sh that show thesis by blast
qed

lemma updateSummary_preserves:
  assumes set: "\<And>w x. P w \<Longrightarrow> P (setSummary c x w)"
    and sh: "\<And>w w'. same_heap w w' \<Longrightarrow> P w \<Longrightarrow> P w'"
    and P: "P w"
  shows "P (snd (updateSummary c llm w))"
proof -
  obtain w1 where w1: "same_heap w w1"
    and alt: "snd (updateSummary c llm w) = w1 \<or>
         (\<exists>x. snd (updateSummary c llm w) = setSummary c x w1)"
    by (rule updateSummary_shape)
  have P1: "P w1" by (rule sh [OF w1 P])
  from alt show ?thesis
  proof
    assume "snd (updateSummary c llm w) = w1"
    with P1 show ?thesis by simp
  next
    assume "\<exists>x. snd (updateSummary c llm w) = setSummary c x w1"
    then obtain x where "snd (updateSummary c llm w) = setSummary c x w1" ..
    then show ?thesis by (simp only: set [OF P1])
  qed
qed

text \<open>An update that changes neither the messages field of a chat, nor arrays, nor
  message objects, nor counters, nor the store's list.\<close>

lemma heap_ok_chat_update:
  assumes ok: "heap_ok w" and m: "messages ch = messages (chatObjs w c)"
  shows "heap_ok (w\<lparr>chatObjs := (chatObjs w)(c := ch)\<rparr>)"
proof (rule heap_okI)
  let ?w' = "w\<lparr>chatObjs := (chatObjs w)(c := ch)\<rparr>"
  have ms: "messages (chatObjs ?w' c') = messages (chatObjs w c')" for c'
    using m by simp
  show "messages (chatObjs ?w' c') < nextArr ?w'" if "c' < nextChat ?w'" for c'
    using heap_okD1 [OF ok, of c'] that unfolding ms by simp
  show "m < nextMsg ?w'" if "a < nextArr ?w'" "m \<in> set (arrays ?w' a)" for a m
    using heap_okD2 [OF ok, of a m] that by simp
  show "c1 = c2" if "c1 < nextChat ?w'" "c2 < nextChat ?w'"
      "messages (chatObjs ?w' c1) = messages (chatObjs ?w' c2)" for c1 c2
    using heap_okD3 [OF ok, of c1 c2] that unfolding ms by simp
  show "c' < nextChat ?w'" if "c' \<in> set (chats ?w')" for c'
    using heap_okD4 [OF ok, of c'] that by simp
qed

lemma store_inv_chat_update:
  assumes inv: "store_inv w" and m: "messages ch = messages (chatObjs w c)"
    and h: "historyString ch = historyString (chatObjs w c)"
  shows "store_inv (w\<lparr>chatObjs := (chatObjs w)(c := ch)\<rparr>)"
proof -
  let ?w' = "w\<lparr>chatObjs := (chatObjs w)(c := ch)\<rparr>"
  from inv have ok: "heap_ok w" and so: "sorted_wrt (<) (chats w)" and hi: "history_ok w"
    by (simp_all add: store_inv_def)
  have mo: "messagesOf ?w' c' = messagesOf w c'" for c'
    using m by (simp add: messagesOf_def)
  have "history_ok ?w'"
  proof (rule history_okI)
    fix c' assume "c' < nextChat ?w'"
    then have "c' < nextChat w" by simp
    from history_okD [OF hi this] show
      "historyString (chatObjs ?w' c') = concat (map render (messagesOf ?w' c'))"
      unfolding mo using h by (cases "c' = c") simp_all
  qed
  with heap_ok_chat_update [OF ok m] so show ?thesis
    by (simp add: store_inv_def)
qed

lemma store_inv_setSummary: "store_inv w \<Longrightarrow> store_inv (setSummary c x w)"
  unfolding setSummary_def by (rule store_inv_chat_update) simp_all

lemma store_inv_renameChat: "store_inv w \<Longrightarrow> store_inv (renameChat c nm w)"
  unfolding renameChat_def by (rule store_inv_chat_update) simp_all

lemma store_inv_deleteChat:
  assumes "store_inv w"
  shows "store_inv (deleteChat c w)"
proof -
  from assms have ok: "heap_ok w" and so: "sorted_wrt (<) (chats w)" and hi: "history_ok w"
    by (simp_all add: store_inv_def)
  have 1: "heap_ok (deleteChat c w)"
    using ok by (simp add: heap_ok_def deleteChat_def)
  have 2: "sorted_wrt (<) (chats (deleteChat c w))"
    using so by (simp add: deleteChat_def sorted_wrt_filter)
  have 3: "history_ok (deleteChat c w)"
    using hi by (simp add: history_ok_def deleteChat_def messagesOf_def)
  from 1 2 3 show ?thesis by (simp add: store_inv_def)
qed

lemma store_inv_makeChat:
  assumes "store_inv w"
  shows "store_inv (snd (makeChat nm w))"
proof -
  let ?w' = "snd (makeChat nm w)"
  from assms have ok: "heap_ok w" and so: "sorted_wrt (<) (chats w)" and hi: "history_ok w"
    by (simp_all add: store_inv_def)
  have 2: "sorted_wrt (<) (chats ?w')"
    using so heap_okD4 [OF ok] by (simp add: sorted_wrt_append)
  have 3: "history_ok ?w'"
  proof (rule history_okI)
    fix c assume c: "c < nextChat ?w'"
    show "historyString (chatObjs ?w' c) = concat (map render (messagesOf ?w' c))"
    proof (cases "c = nextChat w")
      case True
      then show ?thesis
        by (simp add: messagesOf_def makeChat_chatObjs makeChat_arrays)
    next
      case False
      with c have c': "c < nextChat w" by simp
      from heap_okD1 [OF ok c'] have "messages (chatObjs w c) \<noteq> nextArr w" by simp
      with False history_okD [OF hi c'] show ?thesis
        by (simp add: messagesOf_def makeChat_chatObjs makeChat_arrays)
    qed
  qed
  from makeChat_heap_ok [OF ok] 2 3 show ?thesis by (simp add: store_inv_def)
qed


section \<open>Copying messages and chats\<close>

lemma untouchedD:
  assumes "untouched w w'"
  shows "c < nextChat w \<Longrightarrow> chatObjs w' c = chatObjs w c"
    and "a < nextArr w \<Longrightarrow> arrays w' a = arrays w a"
    and "m < nextMsg w \<Longrightarrow> msgObjs w' m = msgObjs w m"
    and "chats w' = chats w"
  using assms by (simp_all add: untouched_def)

lemma untouchedI:
  assumes "\<And>c. c < nextChat w \<Longrightarrow> chatObjs w' c = chatObjs w c"
    and "\<And>a. a < nextArr w \<Longrightarrow> arrays w' a = arrays w a"
    and "\<And>m. m < nextMsg w \<Longrightarrow> msgObjs w' m = msgObjs w m"
    and "chats w' = chats w"
  shows "untouched w w'"
  using assms by (simp add: untouched_def)

lemma extends_refl: "extends w w"
  by (simp add: extends_def untouched_def)

lemma extends_trans:
  assumes 1: "extends w w1" and 2: "extends w1 w2"
  shows "extends w w2"
proof -
  from 1 have u1: "untouched w w1" and n1: "nextChat w \<le> nextChat w1" "nextArr w \<le> nextArr w1"
    "nextMsg w \<le> nextMsg w1" by (simp_all add: extends_def)
  from 2 have u2: "untouched w1 w2" and n2: "nextChat w1 \<le> nextChat w2" "nextArr w1 \<le> nextArr w2"
    "nextMsg w1 \<le> nextMsg w2" by (simp_all add: extends_def)
  have "untouched w w2"
  proof (rule untouchedI)
    show "chatObjs w2 c = chatObjs w c" if "c < nextChat w" for c
      using untouchedD(1) [OF u1 that] untouchedD(1) [OF u2, of c] that n1(1) by simp
    show "arrays w2 a = arrays w a" if "a < nextArr w" for a
      using untouchedD(2) [OF u1 that] untouchedD(2) [OF u2, of a] that n1(2) by simp
    show "msgObjs w2 m = msgObjs w m" if "m < nextMsg w" for m
      using untouchedD(3) [OF u1 that] untouchedD(3) [OF u2, of m] that n1(3) by simp
    show "chats w2 = chats w"
      using untouchedD(4) [OF u1] untouchedD(4) [OF u2] by simp
  qed
  with n1 n2 show ?thesis by (simp add: extends_def)
qed

lemma messagesOf_untouched:
  assumes ok: "heap_ok w" and u: "untouched w w'" and c: "c < nextChat w"
  shows "messagesOf w' c = messagesOf w c"
proof -
  have ch: "chatObjs w' c = chatObjs w c" by (rule untouchedD(1) [OF u c])
  have a: "messages (chatObjs w c) < nextArr w" by (rule heap_okD1 [OF ok c])
  have ar: "arrays w' (messages (chatObjs w c)) = arrays w (messages (chatObjs w c))"
    by (rule untouchedD(2) [OF u a])
  have "map (msgObjs w') (arrays w (messages (chatObjs w c))) =
        map (msgObjs w) (arrays w (messages (chatObjs w c)))"
  proof (rule map_cong [OF refl])
    fix m assume "m \<in> set (arrays w (messages (chatObjs w c)))"
    from heap_okD2 [OF ok a this] show "msgObjs w' m = msgObjs w m"
      by (rule untouchedD(3) [OF u])
  qed
  then show ?thesis by (simp add: messagesOf_def ch ar)
qed

lemma chatValue_untouched:
  assumes "heap_ok w" "untouched w w'" "c < nextChat w"
  shows "chatValue w' c = chatValue w c"
  using messagesOf_untouched [OF assms] untouchedD(1) [OF assms(2,3)]
  by (simp add: chatValue_def)

lemma copyMessages_Cons:
  "copyMessages (m # ms) w =
     (nextMsg w # fst (copyMessages ms
          (w\<lparr>msgObjs := (msgObjs w)(nextMsg w := msgObjs w m), nextMsg := Suc (nextMsg w)\<rparr>)),
      snd (copyMessages ms
          (w\<lparr>msgObjs := (msgObjs w)(nextMsg w := msgObjs w m), nextMsg := Suc (nextMsg w)\<rparr>)))"
  by (simp add: allocMessage_def split_beta)

declare copyMessages.simps(2) [simp del]

lemma upt_step: "[n ..< n + Suc k] = n # [Suc n ..< Suc n + k]"
  by (simp add: upt_conv_Cons)

lemma copyMessages_refs:
  "fst (copyMessages ms w) = [nextMsg w ..< nextMsg w + length ms]"
proof (induction ms arbitrary: w)
  case Nil show ?case by simp
next
  case (Cons m ms)
  show ?case
    unfolding copyMessages_Cons using upt_step [of "nextMsg w" "length ms"]
    by (simp add: Cons.IH)
qed

lemma copyMessages_frame:
  "snd (copyMessages ms w) =
     w\<lparr>msgObjs := msgObjs (snd (copyMessages ms w)), nextMsg := nextMsg w + length ms\<rparr>"
proof (induction ms arbitrary: w)
  case Nil show ?case by simp
next
  case (Cons m ms)
  let ?w1 = "w\<lparr>msgObjs := (msgObjs w)(nextMsg w := msgObjs w m), nextMsg := Suc (nextMsg w)\<rparr>"
  have "snd (copyMessages (m # ms) w) = snd (copyMessages ms ?w1)"
    by (simp add: copyMessages_Cons)
  also have "\<dots> = ?w1\<lparr>msgObjs := msgObjs (snd (copyMessages ms ?w1)),
                        nextMsg := nextMsg ?w1 + length ms\<rparr>"
    by (rule Cons.IH)
  finally show ?case by (simp add: copyMessages_Cons)
qed

lemma copyMessages_old:
  "k < nextMsg w \<Longrightarrow> msgObjs (snd (copyMessages ms w)) k = msgObjs w k"
proof (induction ms arbitrary: w)
  case Nil show ?case by simp
next
  case (Cons m ms)
  let ?w1 = "w\<lparr>msgObjs := (msgObjs w)(nextMsg w := msgObjs w m), nextMsg := Suc (nextMsg w)\<rparr>"
  from Cons.prems have "k < nextMsg ?w1" by simp
  from Cons.IH [OF this] Cons.prems show ?case
    by (simp add: copyMessages_Cons)
qed

lemma copyMessages_values:
  "\<forall>m \<in> set ms. m < nextMsg w \<Longrightarrow>
     map (msgObjs (snd (copyMessages ms w))) (fst (copyMessages ms w)) = map (msgObjs w) ms"
proof (induction ms arbitrary: w)
  case Nil show ?case by simp
next
  case (Cons m ms)
  let ?w1 = "w\<lparr>msgObjs := (msgObjs w)(nextMsg w := msgObjs w m), nextMsg := Suc (nextMsg w)\<rparr>"
  from Cons.prems have m: "m < nextMsg w" and ms: "\<forall>k \<in> set ms. k < nextMsg w" by simp_all
  then have "\<forall>k \<in> set ms. k < nextMsg ?w1" by auto
  from Cons.IH [OF this]
  have ih: "map (msgObjs (snd (copyMessages ms ?w1))) (fst (copyMessages ms ?w1)) = map (msgObjs ?w1) ms" .
  have hd: "msgObjs (snd (copyMessages ms ?w1)) (nextMsg w) = msgObjs w m"
    using copyMessages_old [of "nextMsg w" ?w1 ms] by simp
  have tl: "map (msgObjs ?w1) ms = map (msgObjs w) ms"
    by (rule map_cong [OF refl]) (use ms in auto)
  note ih' = ih [unfolded tl]
  show ?case
    unfolding copyMessages_Cons by (simp add: ih' hd)
qed


lemma copyChat_explicit:
  fixes c :: ref and w :: world
  defines "old \<equiv> arrays w (messages (chatObjs w c))"
  shows "copyChat c w =
     (nextChat w,
      w\<lparr>msgObjs := msgObjs (snd (copyMessages old w)),
        nextMsg := nextMsg w + length old,
        arrays := (arrays w)(nextArr w := [nextMsg w ..< nextMsg w + length old]),
        nextArr := Suc (nextArr w),
        chatObjs := (chatObjs w)(nextChat w :=
           \<lparr>name = name (chatObjs w c), messages = nextArr w,
            summary = summary (chatObjs w c), historyString = historyString (chatObjs w c)\<rparr>),
        nextChat := Suc (nextChat w)\<rparr>)"
proof -
  have "copyChat c w =
      (case allocArray (fst (copyMessages old w)) (snd (copyMessages old w)) of
         (a, w2) \<Rightarrow> allocChat \<lparr>name = name (chatObjs w c), messages = a,
            summary = summary (chatObjs w c), historyString = historyString (chatObjs w c)\<rparr> w2)"
    by (simp add: copyChat_def old_def split_beta)
  also have "\<dots> = (nextChat w,
      w\<lparr>msgObjs := msgObjs (snd (copyMessages old w)),
        nextMsg := nextMsg w + length old,
        arrays := (arrays w)(nextArr w := [nextMsg w ..< nextMsg w + length old]),
        nextArr := Suc (nextArr w),
        chatObjs := (chatObjs w)(nextChat w :=
           \<lparr>name = name (chatObjs w c), messages = nextArr w,
            summary = summary (chatObjs w c), historyString = historyString (chatObjs w c)\<rparr>),
        nextChat := Suc (nextChat w)\<rparr>)"
    by (subst copyMessages_frame) (simp add: allocArray_def allocChat_def copyMessages_refs)
  finally show ?thesis .
qed

lemma copyChat_fields [simp]:
  "fst (copyChat c w) = nextChat w"
  "nextChat (snd (copyChat c w)) = Suc (nextChat w)"
  "nextArr (snd (copyChat c w)) = Suc (nextArr w)"
  "nextMsg (snd (copyChat c w)) = nextMsg w + length (arrays w (messages (chatObjs w c)))"
  "chats (snd (copyChat c w)) = chats w"
  by (simp_all add: copyChat_explicit)

lemma copyChat_chatObjs:
  "chatObjs (snd (copyChat c w)) k =
     (if k = nextChat w
      then \<lparr>name = name (chatObjs w c), messages = nextArr w,
            summary = summary (chatObjs w c), historyString = historyString (chatObjs w c)\<rparr>
      else chatObjs w k)"
  by (simp add: copyChat_explicit)

lemma copyChat_arrays:
  "arrays (snd (copyChat c w)) a =
     (if a = nextArr w
      then [nextMsg w ..< nextMsg w + length (arrays w (messages (chatObjs w c)))]
      else arrays w a)"
  by (simp add: copyChat_explicit)

lemma copyChat_msgObjs:
  "msgObjs (snd (copyChat c w)) = msgObjs (snd (copyMessages (arrays w (messages (chatObjs w c))) w))"
  by (simp add: copyChat_explicit)

lemma copyChat_extends: "extends w (snd (copyChat c w))"
proof -
  have "untouched w (snd (copyChat c w))"
    by (rule untouchedI)
       (simp_all add: copyChat_chatObjs copyChat_arrays copyChat_msgObjs copyMessages_old)
  then show ?thesis by (simp add: extends_def)
qed

lemma copyChat_heap_ok:
  assumes ok: "heap_ok w" and c: "c < nextChat w"
  shows "heap_ok (snd (copyChat c w))"
proof (rule heap_okI)
  let ?w' = "snd (copyChat c w)"
  show "messages (chatObjs ?w' k) < nextArr ?w'" if "k < nextChat ?w'" for k
  proof (cases "k = nextChat w")
    case True then show ?thesis by (simp add: copyChat_chatObjs)
  next
    case False
    with that have "k < nextChat w" by simp
    from heap_okD1 [OF ok this] False show ?thesis by (simp add: copyChat_chatObjs)
  qed
  show "m < nextMsg ?w'" if "a < nextArr ?w'" "m \<in> set (arrays ?w' a)" for a m
  proof (cases "a = nextArr w")
    case True with that show ?thesis by (simp add: copyChat_arrays)
  next
    case False
    with that have "a < nextArr w" "m \<in> set (arrays w a)" by (simp_all add: copyChat_arrays)
    from heap_okD2 [OF ok this] show ?thesis by simp
  qed
  show "c1 = c2" if "c1 < nextChat ?w'" "c2 < nextChat ?w'"
      "messages (chatObjs ?w' c1) = messages (chatObjs ?w' c2)" for c1 c2
  proof -
    have old: "messages (chatObjs w k) \<noteq> nextArr w" if "k < nextChat w" for k
      using heap_okD1 [OF ok that] by simp
    have b1: "c1 = nextChat w \<or> c1 < nextChat w" using that(1) by auto
    have b2: "c2 = nextChat w \<or> c2 < nextChat w" using that(2) by auto
    from b1 b2 consider "c1 = nextChat w" "c2 = nextChat w"
      | "c1 = nextChat w" "c2 < nextChat w"
      | "c1 < nextChat w" "c2 = nextChat w"
      | "c1 < nextChat w" "c2 < nextChat w"
      by blast
    then show ?thesis
    proof cases
      case 1 then show ?thesis by simp
    next
      case 2 with that(3) old [of c2] show ?thesis by (simp add: copyChat_chatObjs)
    next
      case 3 with that(3) old [of c1] show ?thesis by (simp add: copyChat_chatObjs)
    next
      case 4 with that(3) heap_okD3 [OF ok, of c1 c2] show ?thesis
        by (simp add: copyChat_chatObjs)
    qed
  qed
  show "k < nextChat ?w'" if "k \<in> set (chats ?w')" for k
    using heap_okD4 [OF ok, of k] that by auto
qed

lemma copyChat_messagesOf_new:
  assumes ok: "heap_ok w" and c: "c < nextChat w"
  shows "messagesOf (snd (copyChat c w)) (nextChat w) = messagesOf w c"
proof -
  have "\<forall>m \<in> set (arrays w (messages (chatObjs w c))). m < nextMsg w"
    using heap_okD2 [OF ok heap_okD1 [OF ok c]] by blast
  from copyMessages_values [OF this] show ?thesis
    by (simp add: messagesOf_def copyChat_chatObjs copyChat_arrays copyChat_msgObjs
          copyMessages_refs)
qed

lemma copyChat_chatValue_new:
  assumes "heap_ok w" "c < nextChat w"
  shows "chatValue (snd (copyChat c w)) (nextChat w) = chatValue w c"
  using copyChat_messagesOf_new [OF assms]
  by (simp add: chatValue_def copyChat_chatObjs)

lemma copyChat_store_inv:
  assumes inv: "store_inv w" and c: "c < nextChat w"
  shows "store_inv (snd (copyChat c w))"
proof -
  let ?w' = "snd (copyChat c w)"
  from inv have ok: "heap_ok w" and so: "sorted_wrt (<) (chats w)" and hi: "history_ok w"
    by (simp_all add: store_inv_def)
  from copyChat_extends [of w c] have u: "untouched w ?w'" by (simp add: extends_def)
  have "history_ok ?w'"
  proof (rule history_okI)
    fix k assume k: "k < nextChat ?w'"
    show "historyString (chatObjs ?w' k) = concat (map render (messagesOf ?w' k))"
    proof (cases "k = nextChat w")
      case True
      with history_okD [OF hi c] copyChat_messagesOf_new [OF ok c] show ?thesis
        by (simp add: copyChat_chatObjs)
    next
      case False
      with k have k': "k < nextChat w" by simp
      from history_okD [OF hi k'] messagesOf_untouched [OF ok u k'] untouchedD(1) [OF u k']
      show ?thesis by simp
    qed
  qed
  with copyChat_heap_ok [OF ok c] so show ?thesis
    by (simp add: store_inv_def)
qed


declare copyChats.simps(2) [simp del]

lemma copyChats_Cons:
  "copyChats (c # cs) w =
     (nextChat w # fst (copyChats cs (snd (copyChat c w))),
      snd (copyChats cs (snd (copyChat c w))))"
  by (simp add: copyChats.simps(2) split_beta)

lemma extendsD:
  assumes "extends w w'"
  shows "untouched w w'" "nextChat w \<le> nextChat w'" "nextArr w \<le> nextArr w'"
    "nextMsg w \<le> nextMsg w'"
  using assms by (simp_all add: extends_def)

lemma copyChats_all:
  assumes "store_inv w" "\<forall>c \<in> set cs. c < nextChat w"
  shows "fst (copyChats cs w) = [nextChat w ..< nextChat w + length cs] \<and>
         store_inv (snd (copyChats cs w)) \<and>
         extends w (snd (copyChats cs w)) \<and>
         nextChat (snd (copyChats cs w)) = nextChat w + length cs \<and>
         map (chatValue (snd (copyChats cs w))) (fst (copyChats cs w)) = map (chatValue w) cs \<and>
         (\<forall>c' \<in> set (fst (copyChats cs w)).
            nextArr w \<le> messages (chatObjs (snd (copyChats cs w)) c') \<and>
            (\<forall>m \<in> set (arrays (snd (copyChats cs w)) (messages (chatObjs (snd (copyChats cs w)) c'))).
               nextMsg w \<le> m))"
  using assms
proof (induction cs arbitrary: w)
  case Nil
  then show ?case by (simp add: extends_refl)
next
  case (Cons c cs)
  let ?w1 = "snd (copyChat c w)"
  let ?w2 = "snd (copyChats cs ?w1)"
  let ?r = "fst (copyChats cs ?w1)"
  from Cons.prems have inv: "store_inv w" and c: "c < nextChat w"
    and cs: "\<forall>k \<in> set cs. k < nextChat w" by simp_all
  from inv have ok: "heap_ok w" by (simp add: store_inv_def)
  have inv1: "store_inv ?w1" by (rule copyChat_store_inv [OF inv c])
  then have ok1: "heap_ok ?w1" by (simp add: store_inv_def)
  have cs1: "\<forall>k \<in> set cs. k < nextChat ?w1" using cs by auto
  note ih = Cons.IH [OF inv1 cs1]
  from ih have r: "?r = [nextChat ?w1 ..< nextChat ?w1 + length cs]"
    and inv2: "store_inv ?w2" and e12: "extends ?w1 ?w2"
    and n2: "nextChat ?w2 = nextChat ?w1 + length cs"
    and v2: "map (chatValue ?w2) ?r = map (chatValue ?w1) cs"
    and f2: "\<forall>c' \<in> set ?r. nextArr ?w1 \<le> messages (chatObjs ?w2 c') \<and>
            (\<forall>m \<in> set (arrays ?w2 (messages (chatObjs ?w2 c'))). nextMsg ?w1 \<le> m)"
    by blast+
  have e01: "extends w ?w1" by (rule copyChat_extends)
  have e02: "extends w ?w2" by (rule extends_trans [OF e01 e12])
  note u12 = extendsD(1) [OF e12] and u01 = extendsD(1) [OF e01]
  have new1: "nextChat w < nextChat ?w1" by simp
  have 1: "fst (copyChats (c # cs) w) = [nextChat w ..< nextChat w + length (c # cs)]"
    using upt_step [of "nextChat w" "length cs"] by (simp add: copyChats_Cons r)
  have 4: "nextChat (snd (copyChats (c # cs) w)) = nextChat w + length (c # cs)"
    by (simp add: copyChats_Cons n2)
  have hd: "chatValue ?w2 (nextChat w) = chatValue w c"
    using chatValue_untouched [OF ok1 u12 new1] copyChat_chatValue_new [OF ok c] by simp
  have tl: "map (chatValue ?w1) cs = map (chatValue w) cs"
  proof (rule map_cong [OF refl])
    fix k assume "k \<in> set cs"
    with cs have "k < nextChat w" by simp
    from chatValue_untouched [OF ok u01 this] show "chatValue ?w1 k = chatValue w k" .
  qed
  have 5: "map (chatValue (snd (copyChats (c # cs) w))) (fst (copyChats (c # cs) w)) =
           map (chatValue w) (c # cs)"
    by (simp add: copyChats_Cons hd v2 tl)
  have m2: "messages (chatObjs ?w2 (nextChat w)) = nextArr w"
    using untouchedD(1) [OF u12 new1] by (simp add: copyChat_chatObjs)
  have a2: "arrays ?w2 (nextArr w) =
      [nextMsg w ..< nextMsg w + length (arrays w (messages (chatObjs w c)))]"
    using untouchedD(2) [OF u12, of "nextArr w"] by (simp add: copyChat_arrays)
  have 6: "\<forall>c' \<in> set (fst (copyChats (c # cs) w)).
            nextArr w \<le> messages (chatObjs (snd (copyChats (c # cs) w)) c') \<and>
            (\<forall>m \<in> set (arrays (snd (copyChats (c # cs) w))
                 (messages (chatObjs (snd (copyChats (c # cs) w)) c'))). nextMsg w \<le> m)"
  proof
    fix c' assume "c' \<in> set (fst (copyChats (c # cs) w))"
    then have "c' = nextChat w \<or> c' \<in> set ?r" by (simp add: copyChats_Cons)
    then show "nextArr w \<le> messages (chatObjs (snd (copyChats (c # cs) w)) c') \<and>
            (\<forall>m \<in> set (arrays (snd (copyChats (c # cs) w))
                 (messages (chatObjs (snd (copyChats (c # cs) w)) c'))). nextMsg w \<le> m)"
    proof
      assume "c' = nextChat w"
      then show ?thesis by (simp add: copyChats_Cons m2 a2)
    next
      assume "c' \<in> set ?r"
      with f2 have a: "nextArr ?w1 \<le> messages (chatObjs ?w2 c')"
        and b: "\<forall>m \<in> set (arrays ?w2 (messages (chatObjs ?w2 c'))). nextMsg ?w1 \<le> m" by blast+
      from a have a': "nextArr w \<le> messages (chatObjs ?w2 c')" by simp
      from b have b': "\<forall>m \<in> set (arrays ?w2 (messages (chatObjs ?w2 c'))). nextMsg w \<le> m"
        by fastforce
      from a' b' show ?thesis by (simp add: copyChats_Cons)
    qed
  qed
  have 2: "store_inv (snd (copyChats (c # cs) w))" using inv2 by (simp add: copyChats_Cons)
  have 3: "extends w (snd (copyChats (c # cs) w))" using e02 by (simp add: copyChats_Cons)
  from 1 2 3 4 5 6 show ?case by blast
qed


lemma getChats_all:
  assumes inv: "store_inv w"
  shows "fst (getChats w) = [nextChat w ..< nextChat w + length (chats w)]"
    and "store_inv (snd (getChats w))"
    and "extends w (snd (getChats w))"
    and "map (chatValue (snd (getChats w))) (fst (getChats w)) = map (chatValue w) (chats w)"
    and "\<forall>c' \<in> set (fst (getChats w)).
            nextArr w \<le> messages (chatObjs (snd (getChats w)) c') \<and>
            (\<forall>m \<in> set (arrays (snd (getChats w)) (messages (chatObjs (snd (getChats w)) c'))).
               nextMsg w \<le> m)"
proof -
  from inv have ok: "heap_ok w" by (simp add: store_inv_def)
  have b: "\<forall>c \<in> set (chats w). c < nextChat w" using heap_okD4 [OF ok] by blast
  note all = copyChats_all [OF inv b, folded getChats_def]
  from all show "fst (getChats w) = [nextChat w ..< nextChat w + length (chats w)]" by blast
  from all show "store_inv (snd (getChats w))" by blast
  from all show "extends w (snd (getChats w))" by blast
  from all show "map (chatValue (snd (getChats w))) (fst (getChats w)) = map (chatValue w) (chats w)"
    by blast
  from all show "\<forall>c' \<in> set (fst (getChats w)).
            nextArr w \<le> messages (chatObjs (snd (getChats w)) c') \<and>
            (\<forall>m \<in> set (arrays (snd (getChats w)) (messages (chatObjs (snd (getChats w)) c'))).
               nextMsg w \<le> m)" by blast
qed

section \<open>Sequences of calls\<close>

lemma same_heap_nextChat': "same_heap w w' \<Longrightarrow> nextChat w' = nextChat w"
  by (simp add: same_heap_def)

lemma perform_store_inv:
  assumes inv: "store_inv w" and t: "target_ok x w"
  shows "store_inv (perform x w)"
proof (cases x)
  case (MakeChat nm)
  with inv show ?thesis by (simp add: store_inv_makeChat)
next
  case (DeleteChat c)
  with inv show ?thesis by (simp add: store_inv_deleteChat)
next
  case (RenameChat c nm)
  with inv show ?thesis by (simp add: store_inv_renameChat)
next
  case (SendMessage c cont llm)
  with t have c: "c < nextChat w" by simp
  have "store_inv (snd (sendMessage c cont llm w)) \<and> c < nextChat (snd (sendMessage c cont llm w))"
  proof (rule sendMessage_preserves [where P = "\<lambda>w. store_inv w \<and> c < nextChat w"])
    show "store_inv (recordMessage c rl x w) \<and> c < nextChat (recordMessage c rl x w)"
      if "store_inv w \<and> c < nextChat w" for w rl x
      using that store_inv_recordMessage [of w c rl x] by simp
    show "store_inv w' \<and> c < nextChat w'" if "same_heap w w'" "store_inv w \<and> c < nextChat w" for w w'
      using that store_inv_same_heap [of w w'] same_heap_nextChat' [of w w'] by simp
    show "store_inv w \<and> c < nextChat w" using inv c by simp
  qed
  with SendMessage show ?thesis by simp
next
  case (UpdateSummary c llm)
  have "store_inv (snd (updateSummary c llm w))"
  proof (rule updateSummary_preserves [where P = store_inv])
    show "store_inv (setSummary c x w)" if "store_inv w" for w x
      using that by (rule store_inv_setSummary)
    show "store_inv w'" if "same_heap w w'" "store_inv w" for w w'
      using that by (rule store_inv_same_heap)
    show "store_inv w" by (rule inv)
  qed
  with UpdateSummary show ?thesis by simp
next
  case GetChats
  with getChats_all(2) [OF inv] show ?thesis by simp
qed

lemma run_store_inv:
  "run ops w = Some w' \<Longrightarrow> store_inv w \<Longrightarrow> store_inv w'"
proof (induction ops arbitrary: w)
  case Nil
  then show ?case by simp
next
  case (Cons x xs)
  from Cons.prems(1) have t: "target_ok x w" and r: "run xs (perform x w) = Some w'"
    by (simp_all split: if_splits)
  from Cons.IH [OF r perform_store_inv [OF Cons.prems(2) t]] show ?case .
qed

lemma store_inv_new: "store_inv (newLLMChat clock)"
  by (simp add: store_inv_def newLLMChat_heap_ok history_ok_def)
     (simp add: newLLMChat_def)

lemma run_append:
  "run (xs @ ys) w = (case run xs w of None \<Rightarrow> None | Some w1 \<Rightarrow> run ys w1)"
  by (induction xs arbitrary: w) simp_all

text \<open>What an operation does to the registry and to the chat counter.\<close>

lemma perform_chats:
  assumes inv: "store_inv w" and t: "target_ok x w"
  shows "set (chats (perform x w)) \<subseteq> set (chats w) \<union> {nextChat w} \<and>
         nextChat w \<le> nextChat (perform x w)"
proof (cases x)
  case (MakeChat nm)
  then show ?thesis by auto
next
  case (DeleteChat c)
  then show ?thesis by (auto simp: deleteChat_def)
next
  case (RenameChat c nm)
  then show ?thesis by (auto simp: renameChat_def)
next
  case (SendMessage c cont llm)
  have "chats (snd (sendMessage c cont llm w)) = chats w \<and>
        nextChat (snd (sendMessage c cont llm w)) = nextChat w"
    by (rule sendMessage_preserves [where P = "\<lambda>w'. chats w' = chats w \<and> nextChat w' = nextChat w"])
       (simp_all add: same_heap_def)
  with SendMessage show ?thesis by auto
next
  case (UpdateSummary c llm)
  have "chats (snd (updateSummary c llm w)) = chats w \<and>
        nextChat (snd (updateSummary c llm w)) = nextChat w"
    by (rule updateSummary_preserves [where P = "\<lambda>w'. chats w' = chats w \<and> nextChat w' = nextChat w"])
       (simp_all add: same_heap_def setSummary_def)
  with UpdateSummary show ?thesis by auto
next
  case GetChats
  from getChats_all(3) [OF inv] have "chats (snd (getChats w)) = chats w"
    "nextChat w \<le> nextChat (snd (getChats w))"
    by (simp_all add: extends_def untouched_def)
  with GetChats show ?thesis by auto
qed

lemma run_not_listed:
  "run ops w = Some w' \<Longrightarrow> store_inv w \<Longrightarrow> c < nextChat w \<Longrightarrow> c \<notin> set (chats w) \<Longrightarrow>
     c \<notin> set (chats w')"
proof (induction ops arbitrary: w)
  case Nil
  then show ?case by simp
next
  case (Cons x xs)
  from Cons.prems(1) have t: "target_ok x w" and r: "run xs (perform x w) = Some w'"
    by (simp_all split: if_splits)
  from perform_chats [OF Cons.prems(2) t] Cons.prems(3,4)
  have "c < nextChat (perform x w)" "c \<notin> set (chats (perform x w))" by auto
  from Cons.IH [OF r perform_store_inv [OF Cons.prems(2) t] this] show ?case .
qed

lemma run_deleted:
  assumes run: "run (ops1 @ DeleteChat c # ops2) w = Some w'" and inv: "store_inv w"
  shows "c \<notin> set (chats w')"
proof -
  from run obtain w1 where r1: "run ops1 w = Some w1"
    and r2: "run (DeleteChat c # ops2) w1 = Some w'"
    by (auto simp: run_append split: option.splits)
  from r2 have c: "c < nextChat w1" and r3: "run ops2 (deleteChat c w1) = Some w'"
    by (simp_all split: if_splits)
  have inv1: "store_inv w1" by (rule run_store_inv [OF r1 inv])
  have inv2: "store_inv (deleteChat c w1)" by (rule store_inv_deleteChat [OF inv1])
  show ?thesis
    by (rule run_not_listed [OF r3 inv2]) (simp_all add: deleteChat_def c)
qed


section \<open>The history of a chat\<close>

lemma copyChats_extends: "extends w (snd (copyChats cs w))"
proof (induction cs arbitrary: w)
  case Nil
  show ?case by (simp add: extends_refl)
next
  case (Cons c cs)
  have "extends w (snd (copyChat c w))" by (rule copyChat_extends)
  from extends_trans [OF this Cons.IH] show ?case by (simp add: copyChats_Cons)
qed

lemma getChats_extends: "extends w (snd (getChats w))"
  unfolding getChats_def by (rule copyChats_extends)

lemma perform_extends_history:
  assumes ok: "heap_ok w" and t: "target_ok x w" and c: "c < nextChat w"
  shows "\<exists>app. messagesOf (perform x w) c = messagesOf w c @ app \<and>
           historyString (chatObjs (perform x w) c) =
             historyString (chatObjs w c) @ concat (map render app)"
proof -
  have same: ?thesis
    if "messagesOf (perform x w) c = messagesOf w c"
       "historyString (chatObjs (perform x w) c) = historyString (chatObjs w c)"
    using that by (intro exI [of _ "[]"]) simp
  show ?thesis
  proof (cases x)
    case (MakeChat nm)
    from heap_okD1 [OF ok c] have "messages (chatObjs w c) \<noteq> nextArr w" by simp
    with c MakeChat show ?thesis
      by (intro same) (simp_all add: messagesOf_def makeChat_chatObjs makeChat_arrays)
  next
    case (DeleteChat c0)
    then show ?thesis by (intro same) (simp_all add: messagesOf_def deleteChat_def)
  next
    case (RenameChat c0 nm)
    then show ?thesis by (intro same) (simp_all add: messagesOf_def renameChat_def)
  next
    case (SendMessage c0 cont llm)
    with t have c0: "c0 < nextChat w" by simp
    let ?P = "\<lambda>v. heap_ok v \<and> c0 < nextChat v \<and> c < nextChat v \<and>
                (\<exists>app. messagesOf v c = messagesOf w c @ app \<and>
                   historyString (chatObjs v c) =
                     historyString (chatObjs w c) @ concat (map render app))"
    have "?P (snd (sendMessage c0 cont llm w))"
    proof (rule sendMessage_preserves [where P = ?P])
      show "?P (recordMessage c0 rl y v)" if "?P v" for v rl y
      proof -
        from that obtain app where okv: "heap_ok v" and a: "c0 < nextChat v" and b: "c < nextChat v"
          and m: "messagesOf v c = messagesOf w c @ app"
          and h: "historyString (chatObjs v c) =
                    historyString (chatObjs w c) @ concat (map render app)" by blast
        let ?m = "\<lparr>role = rl, content = y, timestamp = dateNow v (ticks v)\<rparr>"
        have "\<exists>app'. messagesOf (recordMessage c0 rl y v) c = messagesOf w c @ app' \<and>
            historyString (chatObjs (recordMessage c0 rl y v) c) =
              historyString (chatObjs w c) @ concat (map render app')"
        proof (cases "c = c0")
          case True
          with recordMessage_messagesOf [OF okv a b, of rl y] m h show ?thesis
            by (intro exI [of _ "app @ [?m]"]) (simp add: recordMessage_chatObjs)
        next
          case False
          with recordMessage_messagesOf [OF okv a b, of rl y] m h show ?thesis
            by (intro exI [of _ app]) (simp add: recordMessage_chatObjs)
        qed
        with recordMessage_heap_ok [OF okv, of c0 rl y] a b show ?thesis by simp
      qed
      show "?P v'" if "same_heap v v'" "?P v" for v v'
        using that same_heap_heap_ok [OF that(1)] same_heap_messagesOf [OF that(1), of c]
          same_heap_nextChat [OF that(1)] same_heap_chatObjs [OF that(1)] by simp
      show "?P w" using ok c0 c by simp
    qed
    with SendMessage show ?thesis by simp
  next
    case (UpdateSummary c0 llm)
    let ?P = "\<lambda>v. messagesOf v c = messagesOf w c \<and>
                historyString (chatObjs v c) = historyString (chatObjs w c)"
    have "?P (snd (updateSummary c0 llm w))"
    proof (rule updateSummary_preserves [where P = ?P])
      show "?P (setSummary c0 y v)" if "?P v" for v y
        using that by (auto simp: messagesOf_def setSummary_def)
      show "?P v'" if "same_heap v v'" "?P v" for v v'
        using that same_heap_messagesOf [OF that(1), of c] same_heap_chatObjs [OF that(1)] by simp
      show "?P w" by simp
    qed
    with UpdateSummary show ?thesis by (intro same) simp_all
  next
    case GetChats
    from getChats_extends [of w] have u: "untouched w (snd (getChats w))"
      by (simp add: extends_def)
    from messagesOf_untouched [OF ok u c] untouchedD(1) [OF u c] GetChats show ?thesis
      by (intro same) simp_all
  qed
qed

text \<open>
  Claim C2.  After every sequence of calls on a new store, the history of every
  chat object is the concatenation, in order, of its messages rendered as
  \<open>[ROLE] content\<close> and a line feed.  And the history is only ever extended:
  from any well-formed heap, whatever the history of a chat holds there, a call
  leaves the messages of the chat in place and appends to them or not, and the
  history after it is the history before it followed by the renderings of the
  messages this call appended.  So a history that had drifted would keep its
  drift: the string is never computed anew from the messages.
\<close>

theorem history_invariant:
  "(run ops (newLLMChat clock) = Some w \<and> c < nextChat w \<longrightarrow>
      heap_ok w \<and> historyString (chatObjs w c) = concat (map render (messagesOf w c))) \<and>
   (heap_ok v \<and> c' < nextChat v \<and> target_ok x v \<longrightarrow>
      prefix (messagesOf v c') (messagesOf (perform x v) c') \<and>
      historyString (chatObjs (perform x v) c') =
        historyString (chatObjs v c') @
        concat (map render (drop (length (messagesOf v c')) (messagesOf (perform x v) c'))))"
proof (intro conjI impI)
  assume a: "run ops (newLLMChat clock) = Some w \<and> c < nextChat w"
  then have r: "run ops (newLLMChat clock) = Some w" by simp
  have inv: "store_inv w" by (rule run_store_inv [OF r store_inv_new])
  then show "heap_ok w" by (simp add: store_inv_def)
  from inv have "history_ok w" by (simp add: store_inv_def)
  from history_okD [OF this] a
  show "historyString (chatObjs w c) = concat (map render (messagesOf w c))" by simp
next
  assume b: "heap_ok v \<and> c' < nextChat v \<and> target_ok x v"
  then have "\<exists>app. messagesOf (perform x v) c' = messagesOf v c' @ app \<and>
           historyString (chatObjs (perform x v) c') =
             historyString (chatObjs v c') @ concat (map render app)"
    by (intro perform_extends_history) simp_all
  then obtain app where app: "messagesOf (perform x v) c' = messagesOf v c' @ app"
    "historyString (chatObjs (perform x v) c') =
       historyString (chatObjs v c') @ concat (map render app)" by blast
  show "prefix (messagesOf v c') (messagesOf (perform x v) c')"
    by (simp add: app(1))
  show "historyString (chatObjs (perform x v) c') =
        historyString (chatObjs v c') @
        concat (map render (drop (length (messagesOf v c')) (messagesOf (perform x v) c')))"
    by (simp add: app)
qed

theorem history_invariant_witness:
  \<open>run [MakeChat (js ''X''), SendMessage 0 (js ''Hi'') (answering (js ''{"reply":"Hello!"}''))]
       (newLLMChat (\<lambda>n. n)) = Some (snd (sendMessage 0 (js ''Hi'')
          (answering (js ''{"reply":"Hello!"}'')) worldX)) \<and>
   historyString (chatObjs (snd (sendMessage 0 (js ''Hi'')
          (answering (js ''{"reply":"Hello!"}'')) worldX)) 0) =
     concat (map render (messagesOf (snd (sendMessage 0 (js ''Hi'')
          (answering (js ''{"reply":"Hello!"}'')) worldX)) 0)) \<and>
   historyString (chatObjs (snd (sendMessage 0 (js ''Hi'')
          (answering (js ''{"reply":"Hello!"}'')) worldX)) 0) = js ''[USER] Hi\<newline>[LLM] Hello!\<newline>'' \<and>
   historyString (chatObjs (perform (SendMessage 0 (js ''Hi'') (\<lambda>q v. Hangs))
          (setHistory 0 (js ''drifted'') worldX)) 0) = js ''drifted[USER] Hi\<newline>''\<close>
proof -
  let ?llm = \<open>answering (js ''{"reply":"Hello!"}'')\<close>
  let ?w = "snd (sendMessage 0 (js ''Hi'') ?llm worldX)"
  have r: "run [MakeChat (js ''X''), SendMessage 0 (js ''Hi'') ?llm] (newLLMChat (\<lambda>n. n)) = Some ?w"
    by (simp add: worldX_def world0_def)
  have "nextChat ?w = nextChat worldX"
    by (rule sendMessage_preserves [where P = "\<lambda>w'. nextChat w' = nextChat worldX"])
       (simp_all add: same_heap_def)
  then have c: "0 < nextChat ?w" by (simp add: worldX_facts)
  have c0: "fst (makeChat (js ''X'') world0) = 0"
    by (simp add: world0_def newLLMChat_def)
  note th1 = history_invariant [THEN conjunct1, rule_format, OF conjI, OF r c]
  from th1 hello_scenario(3) [of world0, unfolded c0 worldX_def [symmetric]]
  have a: "historyString (chatObjs ?w 0) = concat (map render (messagesOf ?w 0))"
    "historyString (chatObjs ?w 0) = js ''[USER] Hi\<newline>[LLM] Hello!\<newline>''"
    by simp_all
  let ?d = "setHistory 0 (js ''drifted'') worldX"
  let ?u = "\<lparr>role = User, content = js ''Hi'', timestamp = 0\<rparr>"
  have okd: "heap_ok ?d"
    unfolding setHistory_def by (rule heap_ok_chat_update [OF worldX_facts(1)]) simp
  have cd: "0 < nextChat ?d" by (simp add: setHistory_def worldX_facts)
  have md: "messagesOf ?d 0 = []" "historyString (chatObjs ?d 0) = js ''drifted''"
    "dateNow ?d (ticks ?d) = 0"
    using worldX_facts(3) by (simp_all add: setHistory_def messagesOf_def worldX_facts)
  have fl: "fst (sendMessage 0 (js ''Hi'') (\<lambda>q v. Hangs) ?d) = Inl TimedOut"
    by (simp add: sendMessage_traces callLLM_hangs)
  from sendMessage_effect(4) [OF okd cd fl]
  have mm: "messagesOf (perform (SendMessage 0 (js ''Hi'') (\<lambda>q v. Hangs)) ?d) 0 = [?u]"
    by (simp add: md)
  have t: "target_ok (SendMessage 0 (js ''Hi'') (\<lambda>q v. Hangs)) ?d" using cd by simp
  note th2 = history_invariant [THEN conjunct2, rule_format, OF conjI, OF okd conjI, OF cd t]
  from th2 have b: "historyString (chatObjs (perform (SendMessage 0 (js ''Hi'') (\<lambda>q v. Hangs)) ?d) 0)
      = js ''drifted[USER] Hi\<newline>''"
    unfolding mm md by (simp add: render_def toUpperCase_def js_def)
  from r a b show ?thesis by simp
qed


section \<open>Listing the chats\<close>

lemma getChats_nextChat:
  assumes inv: "store_inv w"
  shows "nextChat (snd (getChats w)) = nextChat w + length (chats w)"
proof -
  from inv have ok: "heap_ok w" by (simp add: store_inv_def)
  have b: "\<forall>c \<in> set (chats w). c < nextChat w" using heap_okD4 [OF ok] by blast
  from copyChats_all [OF inv b, folded getChats_def] show ?thesis by blast
qed

lemma perform_registry:
  assumes inv: "store_inv w" and t: "target_ok x w"
  shows "(chats (perform x w), nextChat (perform x w)) = spec_step x (chats w, nextChat w)"
proof (cases x)
  case (MakeChat nm)
  then show ?thesis by simp
next
  case (DeleteChat c)
  then show ?thesis by (simp add: deleteChat_def)
next
  case (RenameChat c nm)
  then show ?thesis by (simp add: renameChat_def)
next
  case (SendMessage c cont llm)
  have "chats (snd (sendMessage c cont llm w)) = chats w \<and>
        nextChat (snd (sendMessage c cont llm w)) = nextChat w"
    by (rule sendMessage_preserves [where P = "\<lambda>w'. chats w' = chats w \<and> nextChat w' = nextChat w"])
       (simp_all add: same_heap_def)
  with SendMessage show ?thesis by simp
next
  case (UpdateSummary c llm)
  have "chats (snd (updateSummary c llm w)) = chats w \<and>
        nextChat (snd (updateSummary c llm w)) = nextChat w"
    by (rule updateSummary_preserves [where P = "\<lambda>w'. chats w' = chats w \<and> nextChat w' = nextChat w"])
       (simp_all add: same_heap_def setSummary_def)
  with UpdateSummary show ?thesis by simp
next
  case GetChats
  from getChats_extends [of w] have "chats (snd (getChats w)) = chats w"
    by (simp add: extends_def untouched_def)
  with getChats_nextChat [OF inv] GetChats show ?thesis by simp
qed

lemma run_registry:
  "run ops w = Some w' \<Longrightarrow> store_inv w \<Longrightarrow>
     (chats w', nextChat w') = foldl (\<lambda>s x. spec_step x s) (chats w, nextChat w) ops"
proof (induction ops arbitrary: w)
  case Nil
  then show ?case by simp
next
  case (Cons x xs)
  from Cons.prems(1) have t: "target_ok x w" and r: "run xs (perform x w) = Some w'"
    by (simp_all split: if_splits)
  from Cons.IH [OF r perform_store_inv [OF Cons.prems(2) t]]
  show ?case by (simp add: perform_registry [OF Cons.prems(2) t])
qed

lemma sorted_distinct: "sorted_wrt (<) (xs :: nat list) \<Longrightarrow> distinct xs"
  by (induction xs) auto

text \<open>
  Claim C9.  After every sequence of calls on a new store, the store's list is
  the registry of the specification: the chats created and not deleted since, in
  the order of their creation; so a deleted chat is not in it.  \<open>getChats\<close>
  returns one new chat object for each chat of this list, in the same order, that
  holds the same name, summary, history and messages.  The copies are deep:
  their chat objects, their arrays and their message objects are all objects
  that did not exist before the call, and no two copies share one.  The call
  leaves every object that existed, and the store's list, as they were.  And
  whatever is written afterwards to the objects of the copies, to their fields,
  their arrays or their messages, and whatever objects are made, the store's
  list and what its chats hold stay as they were.
\<close>

theorem getChats_deep_copies:
  fixes ops :: "op list" and clock :: "nat \<Rightarrow> nat" and w :: world
  defines "cs \<equiv> fst (getChats w)" and "w' \<equiv> snd (getChats w)"
  defines "copyArrays \<equiv> (\<lambda>c. messages (chatObjs w' c)) ` set cs"
  defines "copyMsgs \<equiv> \<Union>c \<in> set cs. set (arrays w' (messages (chatObjs w' c)))"
  assumes "run ops (newLLMChat clock) = Some w"
  shows "chats w = spec_registry ops \<and>
         (\<forall>ops1 c ops2. ops = ops1 @ DeleteChat c # ops2 \<longrightarrow> c \<notin> set (chats w)) \<and>
         distinct (chats w) \<and>
         length cs = length (chats w) \<and>
         map (chatValue w') cs = map (chatValue w) (chats w) \<and>
         distinct cs \<and> inj_on (\<lambda>c. messages (chatObjs w' c)) (set cs) \<and>
         (\<forall>c \<in> set cs. nextChat w \<le> c \<and> c < nextChat w') \<and>
         (\<forall>a \<in> copyArrays. nextArr w \<le> a \<and> a < nextArr w') \<and>
         (\<forall>m \<in> copyMsgs. nextMsg w \<le> m \<and> m < nextMsg w') \<and>
         untouched w w' \<and> chats w' = chats w \<and>
         (\<forall>w''. chats w'' = chats w' \<and>
                (\<forall>c. c < nextChat w' \<and> c \<notin> set cs \<longrightarrow> chatObjs w'' c = chatObjs w' c) \<and>
                (\<forall>a. a < nextArr w' \<and> a \<notin> copyArrays \<longrightarrow> arrays w'' a = arrays w' a) \<and>
                (\<forall>m. m < nextMsg w' \<and> m \<notin> copyMsgs \<longrightarrow> msgObjs w'' m = msgObjs w' m) \<longrightarrow>
                chats w'' = chats w \<and>
                map (chatValue w'') (chats w'') = map (chatValue w) (chats w))"
proof -
  note r = assms(5)
  have inv: "store_inv w" by (rule run_store_inv [OF r store_inv_new])
  then have ok: "heap_ok w" and so: "sorted_wrt (<) (chats w)" by (simp_all add: store_inv_def)
  note all = getChats_all [OF inv, folded cs_def w'_def]
  have inv': "store_inv w'" by (rule all(2))
  then have ok': "heap_ok w'" by (simp add: store_inv_def)
  from all(3) have u: "untouched w w'"
    and ex: "nextChat w \<le> nextChat w'" "nextArr w \<le> nextArr w'" "nextMsg w \<le> nextMsg w'"
    by (simp_all add: extends_def)
  have n': "nextChat w' = nextChat w + length (chats w)"
    unfolding w'_def by (rule getChats_nextChat [OF inv])
  have 1: "chats w = spec_registry ops"
    using run_registry [OF r store_inv_new]
    by (simp add: spec_registry_def newLLMChat_def prod_eq_iff)
  have 2: "\<forall>ops1 c ops2. ops = ops1 @ DeleteChat c # ops2 \<longrightarrow> c \<notin> set (chats w)"
  proof (intro allI impI)
    fix ops1 c ops2 assume "ops = ops1 @ DeleteChat c # ops2"
    with r have "run (ops1 @ DeleteChat c # ops2) (newLLMChat clock) = Some w" by simp
    from run_deleted [OF this store_inv_new] show "c \<notin> set (chats w)" .
  qed
  have 3: "distinct (chats w)" by (rule sorted_distinct [OF so])
  have 4: "length cs = length (chats w)" by (simp add: all(1))
  have 5: "map (chatValue w') cs = map (chatValue w) (chats w)" by (rule all(4))
  have 6: "distinct cs" by (simp add: all(1))
  have cs_new: "\<forall>c \<in> set cs. nextChat w \<le> c \<and> c < nextChat w'"
    by (simp add: all(1) n')
  have 7: "inj_on (\<lambda>c. messages (chatObjs w' c)) (set cs)"
  proof (rule inj_onI)
    fix c1 c2 assume "c1 \<in> set cs" "c2 \<in> set cs"
      "messages (chatObjs w' c1) = messages (chatObjs w' c2)"
    with cs_new heap_okD3 [OF ok', of c1 c2] show "c1 = c2" by simp
  qed
  have arr_new: "\<forall>a \<in> copyArrays. nextArr w \<le> a \<and> a < nextArr w'"
    using all(5) cs_new heap_okD1 [OF ok'] by (auto simp: copyArrays_def)
  have msg_new: "\<forall>m \<in> copyMsgs. nextMsg w \<le> m \<and> m < nextMsg w'"
  proof
    fix m assume "m \<in> copyMsgs"
    then obtain c where c: "c \<in> set cs" and m: "m \<in> set (arrays w' (messages (chatObjs w' c)))"
      by (auto simp: copyMsgs_def)
    from cs_new c have "c < nextChat w'" by simp
    from heap_okD2 [OF ok' heap_okD1 [OF ok' this] m] all(5) c m
    show "nextMsg w \<le> m \<and> m < nextMsg w'" by blast
  qed
  have 8: "chats w' = chats w" by (rule untouchedD(4) [OF u])
  have 9: "chats w'' = chats w \<and> map (chatValue w'') (chats w'') = map (chatValue w) (chats w)"
    if h: "chats w'' = chats w' \<and>
           (\<forall>c. c < nextChat w' \<and> c \<notin> set cs \<longrightarrow> chatObjs w'' c = chatObjs w' c) \<and>
           (\<forall>a. a < nextArr w' \<and> a \<notin> copyArrays \<longrightarrow> arrays w'' a = arrays w' a) \<and>
           (\<forall>m. m < nextMsg w' \<and> m \<notin> copyMsgs \<longrightarrow> msgObjs w'' m = msgObjs w' m)" for w''
  proof -
    have u'': "untouched w w''"
    proof (rule untouchedI)
      show "chatObjs w'' c = chatObjs w c" if "c < nextChat w" for c
      proof -
        from cs_new that have "c \<notin> set cs" by auto
        moreover from that ex(1) have "c < nextChat w'" by simp
        ultimately show ?thesis using h untouchedD(1) [OF u that] by simp
      qed
      show "arrays w'' a = arrays w a" if "a < nextArr w" for a
      proof -
        from arr_new that have "a \<notin> copyArrays" by auto
        moreover from that ex(2) have "a < nextArr w'" by simp
        ultimately show ?thesis using h untouchedD(2) [OF u that] by simp
      qed
      show "msgObjs w'' m = msgObjs w m" if "m < nextMsg w" for m
      proof -
        from msg_new that have "m \<notin> copyMsgs" by auto
        moreover from that ex(3) have "m < nextMsg w'" by simp
        ultimately show ?thesis using h untouchedD(3) [OF u that] by simp
      qed
      show "chats w'' = chats w" using h 8 by simp
    qed
    have "chatValue w'' c = chatValue w c" if "c \<in> set (chats w)" for c
      by (rule chatValue_untouched [OF ok u'' heap_okD4 [OF ok that]])
    with h 8 show ?thesis by simp
  qed
  from 1 2 3 4 5 6 7 cs_new arr_new msg_new u 8 9 show ?thesis by blast
qed


theorem getChats_deep_copies_witness:
  "run [MakeChat (js ''X''), MakeChat (js ''Y''), RenameChat 0 (js ''Z''), DeleteChat 0]
       (newLLMChat (\<lambda>n. n)) =
     Some (deleteChat 0 (renameChat 0 (js ''Z'') (snd (makeChat (js ''Y'') worldX)))) \<and>
   spec_registry [MakeChat (js ''X''), MakeChat (js ''Y''), RenameChat 0 (js ''Z''), DeleteChat 0] = [1] \<and>
   chats (deleteChat 0 (renameChat 0 (js ''Z'') (snd (makeChat (js ''Y'') worldX)))) = [1] \<and>
   fst (getChats (deleteChat 0 (renameChat 0 (js ''Z'') (snd (makeChat (js ''Y'') worldX))))) = [2] \<and>
   map (chatValue (snd (getChats (deleteChat 0 (renameChat 0 (js ''Z'') (snd (makeChat (js ''Y'') worldX)))))))
       (fst (getChats (deleteChat 0 (renameChat 0 (js ''Z'') (snd (makeChat (js ''Y'') worldX))))))
     = [(js ''Y'', [], [], [])] \<and>
   map (chatValue (recordMessage 2 User (js ''Q'')
          (snd (getChats (deleteChat 0 (renameChat 0 (js ''Z'') (snd (makeChat (js ''Y'') worldX))))))))
       [1]
     = [(js ''Y'', [], [], [])]"
proof -
  let ?ops = "[MakeChat (js ''X''), MakeChat (js ''Y''), RenameChat 0 (js ''Z''), DeleteChat 0]"
  let ?w = "deleteChat 0 (renameChat 0 (js ''Z'') (snd (makeChat (js ''Y'') worldX)))"
  let ?w' = "snd (getChats ?w)"
  let ?w'' = "recordMessage 2 User (js ''Q'') ?w'"
  have r: "run ?ops (newLLMChat (\<lambda>n. n)) = Some ?w"
    by (simp add: worldX_def world0_def renameChat_def deleteChat_def)
  have reg: "spec_registry ?ops = [1]"
    by (simp add: spec_registry_def)
  have v: "chatValue ?w 1 = (js ''Y'', [], [], [])"
    by (simp add: chatValue_def messagesOf_def deleteChat_def renameChat_def makeChat_explicit
        worldX_def world0_def newLLMChat_def)
  have n: "nextChat ?w = 2"
    by (simp add: deleteChat_def renameChat_def worldX_def world0_def newLLMChat_def)
  note th = getChats_deep_copies [OF r]
  from th reg have c: "chats ?w = [1]" by simp
  have inv: "store_inv ?w" by (rule run_store_inv [OF r store_inv_new])
  have cs: "fst (getChats ?w) = [2]"
    using getChats_all(1) [OF inv] by (simp add: n c)
  from th have "map (chatValue ?w') (fst (getChats ?w)) = map (chatValue ?w) (chats ?w)"
    by blast
  with c v have m: "map (chatValue ?w') (fst (getChats ?w)) = [(js ''Y'', [], [], [])]"
    by simp
  have h1: "chats ?w'' = chats ?w'" by simp
  have h2: "\<forall>c. c < nextChat ?w' \<and> c \<notin> set (fst (getChats ?w)) \<longrightarrow> chatObjs ?w'' c = chatObjs ?w' c"
    by (simp add: cs recordMessage_chatObjs)
  have h3: "\<forall>a. a < nextArr ?w' \<and> a \<notin> (\<lambda>c. messages (chatObjs ?w' c)) ` set (fst (getChats ?w)) \<longrightarrow>
      arrays ?w'' a = arrays ?w' a"
    by (simp add: cs recordMessage_arrays)
  have h4: "\<forall>m. m < nextMsg ?w' \<and>
      m \<notin> (\<Union>c \<in> set (fst (getChats ?w)). set (arrays ?w' (messages (chatObjs ?w' c)))) \<longrightarrow>
      msgObjs ?w'' m = msgObjs ?w' m"
    by (simp add: recordMessage_msgObjs)
  from th h1 h2 h3 h4
  have "map (chatValue ?w'') (chats ?w'') = map (chatValue ?w) (chats ?w)"
    by blast
  with c v h1 th have k: "map (chatValue ?w'') [1] = [(js ''Y'', [], [], [])]"
    by simp
  from r reg c cs m k show ?thesis by blast
qed

end
